theory Spec2Isabelle
  imports Main "HOL-Library.Word" "HOL-Library.Multiset" "HOL-Library.AList"
begin

section \<open>Values, attribute bags and property keys\<close>

text \<open>
  The collection of \<^verbatim>\<open>models.base.collection.js\<close> holds record objects and an index
  \<^verbatim>\<open>_byId\<close>, a plain JavaScript object. Its property keys are strings: whatever is used
  as a key is first coerced to a string. The values a record attribute can hold are the
  primitive ones, and what every object inherits under a name such as \<^verbatim>\<open>toString\<close> (a
  function, or the prototype object under \<^verbatim>\<open>__proto__\<close>). A number is an integer that a
  signed word of 54 bits holds, read by \<open>sint\<close>: JavaScript holds those exactly and writes
  them in plain decimal.
\<close>

datatype jsval = JUndefined | JNull | JBool bool | JNum "54 word" | JStr string
  | JInherited string

text \<open>An attribute bag is an object: its properties in order, read through \<open>map_of\<close>.\<close>

type_synonym attrs = "(string \<times> jsval) list"

text \<open>
  An attribute bag is an object literal, and so are the index \<^verbatim>\<open>_byId\<close> and the map
  \<^verbatim>\<open>modelMap\<close> of \<^verbatim>\<open>set\<close>, both created as \<^verbatim>\<open>{}\<close>: reading a key that the object does not
  have itself answers with what every object inherits under that name, a function (or the
  prototype object), which is truthy and is not a record. These are the inherited names.
  A property written under one of them is kept like any other property (the prototype
  that a write under \<^verbatim>\<open>__proto__\<close> would replace is not modelled).
\<close>

definition proto_keys :: "string list" where
  "proto_keys =
     [''constructor'', ''toString'', ''toLocaleString'', ''valueOf'', ''hasOwnProperty'',
      ''isPrototypeOf'', ''propertyIsEnumerable'', ''__proto__'', ''__defineGetter__'',
      ''__defineSetter__'', ''__lookupGetter__'', ''__lookupSetter__'']"

text \<open>Reading a property: \<^verbatim>\<open>obj[k]\<close> is the property of the object, else what is inherited
  under \<open>k\<close>, else \<^verbatim>\<open>undefined\<close>.\<close>

definition attr_get :: "attrs \<Rightarrow> string \<Rightarrow> jsval" where
  "attr_get a k =
     (case map_of a k of
        None \<Rightarrow> if k \<in> set proto_keys then JInherited k else JUndefined
      | Some v \<Rightarrow> v)"

text \<open>\<^verbatim>\<open>x == null\<close> holds of \<^verbatim>\<open>undefined\<close> and \<^verbatim>\<open>null\<close> only.\<close>

fun nullish :: "jsval \<Rightarrow> bool" where
  "nullish JUndefined = True"
| "nullish JNull = True"
| "nullish _ = False"

text \<open>\<^verbatim>\<open>!x\<close> is false of a value that is truthy: every value but \<^verbatim>\<open>undefined\<close>, \<^verbatim>\<open>null\<close>,
  \<^verbatim>\<open>false\<close>, \<^verbatim>\<open>0\<close> and the empty string.\<close>

fun js_truthy :: "jsval \<Rightarrow> bool" where
  "js_truthy JUndefined = False"
| "js_truthy JNull = False"
| "js_truthy (JBool b) = b"
| "js_truthy (JNum n) = (n \<noteq> 0)"
| "js_truthy (JStr s) = (s \<noteq> [])"
| "js_truthy (JInherited k) = True"

definition digit_char :: "nat \<Rightarrow> char" where
  "digit_char d = ''0123456789'' ! d"

fun digits :: "nat \<Rightarrow> string" where
  "digits n = (if n < 10 then [digit_char n] else digits (n div 10) @ [digit_char (n mod 10)])"

declare digits.simps [simp del]

text \<open>An object that is not a primitive (an attribute bag, a record, the prototype object)
  used as a key.\<close>

definition object_key :: string where
  "object_key = ''[object Object]''"

text \<open>The string a value becomes when it is used as a property key; an inherited function
  becomes the text of a native function, named as the property is but for the constructor
  \<^verbatim>\<open>Object\<close>.\<close>

fun to_key :: "jsval \<Rightarrow> string" where
  "to_key JUndefined = ''undefined''"
| "to_key JNull = ''null''"
| "to_key (JBool b) = (if b then ''true'' else ''false'')"
| "to_key (JNum n) =
     (if sint n < 0 then CHR ''-'' # digits (nat (- sint n)) else digits (nat (sint n)))"
| "to_key (JStr s) = s"
| "to_key (JInherited k) =
     (if k = ''__proto__'' then object_key
      else ''function '' @ (if k = ''constructor'' then ''Object'' else k) @
           ''() { [native code] }'')"

text \<open>\<^verbatim>\<open>modelMap[k]\<close> is truthy: the key was set, or it is an inherited name.\<close>

definition in_map :: "string set \<Rightarrow> string \<Rightarrow> bool" where
  "in_map m k = (k \<in> m \<or> k \<in> set proto_keys)"

section \<open>Records\<close>

text \<open>
  Modelled from the spec: the record class (\<^verbatim>\<open>BaseModelClass\<close>) is not part of the
  sources; the collection only consumes it. A record has a client identity assigned once
  and unique within the process, a mutable attribute bag, the snapshot of the attributes
  before the last update with the names of the attributes that update changed, the
  validation error of its construction, and a back-reference to the owning collection.
  Records live in a heap addressed by their client identity, a counter value \<open>n\<close>; the
  property \<^verbatim>\<open>cid\<close> is the string \<^verbatim>\<open>c\<close> followed by \<open>n\<close> in decimal.
\<close>

datatype owner = Unowned | Self | Foreign

record model =
  attributes :: attrs
  previous :: attrs
  changed :: "string list"
  validationError :: "jsval option"
  collection :: owner

definition cid_key :: "nat \<Rightarrow> string" where
  "cid_key n = CHR ''c'' # digits n"

text \<open>
  Modelled from the spec: \<^verbatim>\<open>Model#set\<close> copies the given attributes onto the record,
  keeps the previous snapshot and records which attributes changed value.
\<close>

definition model_set :: "model \<Rightarrow> attrs \<Rightarrow> model" where
  "model_set m a =
     m\<lparr>previous := attributes m,
       changed := filter (\<lambda>k. attr_get (attributes m) k \<noteq> attr_get a k) (map fst a),
       attributes := AList.merge (attributes m) a\<rparr>"

text \<open>
  Modelled from the spec: \<^verbatim>\<open>hasChanged(attr)\<close> reports whether the named attribute
  changed in the last update, or whether any did when no name is given.
\<close>

definition hasChanged :: "model \<Rightarrow> string option \<Rightarrow> bool" where
  "hasChanged m attr = (case attr of None \<Rightarrow> changed m \<noteq> [] | Some k \<Rightarrow> k \<in> set (changed m))"

section \<open>The collection and its world\<close>

datatype comparator =
    Field string
  | KeyFn "attrs \<Rightarrow> jsval"
  | CmpFn "attrs \<Rightarrow> attrs \<Rightarrow> int"

text \<open>
  The notifications seen on the collection's channel, with the part of their payload the
  collection sets: the index in the options of an "add" and a "remove", the previous
  records of a "reset", the validation error of an "invalid".
\<close>

datatype notification =
    N_add nat "int option"
  | N_remove nat "int option"
  | N_change nat
  | N_sort
  | N_reset "nat list"
  | N_invalid jsval

text \<open>
  The state: the heap of records with the counter of client identities, the number of
  times the collection's aggregate listener is subscribed to each record, the fields
  \<^verbatim>\<open>models\<close>, \<^verbatim>\<open>length\<close>, \<^verbatim>\<open>_byId\<close> (the keys the index has itself) and
  \<^verbatim>\<open>comparator\<close> of the collection, what it reads of its record class
  (\<^verbatim>\<open>model.prototype.idAttribute\<close>, and the validation performed by the constructor),
  the notifications emitted on the collection so far, and the notifications emitted on
  records so far (whoever listens).
\<close>

record state =
  heap :: "nat \<Rightarrow> model"
  next_cid :: nat
  subs :: "nat \<Rightarrow> nat"
  models :: "nat list"
  len :: int
  byId :: "string \<rightharpoonup> nat"
  comparator :: "comparator option"
  idAttribute :: "string option"
  validate :: "attrs \<Rightarrow> jsval option"
  log :: "notification list"
  emitted :: "notification list"

datatype error = NoComparator | TypeError

text \<open>The options object; an absent property is \<open>None\<close>.\<close>

record options =
  opt_add :: "bool option"
  opt_remove :: "bool option"
  opt_merge :: "bool option"
  opt_at :: "int option"
  opt_sort :: "bool option"
  opt_silent :: "bool option"
  opt_index :: "int option"

definition no_options :: options where
  "no_options = \<lparr>opt_add = None, opt_remove = None, opt_merge = None, opt_at = None,
                  opt_sort = None, opt_silent = None, opt_index = None\<rparr>"

definition truthy :: "bool option \<Rightarrow> bool" where
  "truthy b = (b = Some True)"

text \<open>\<^verbatim>\<open>_.defaults({}, options, setOptions)\<close> with \<^verbatim>\<open>{add: true, remove: true, merge: true}\<close>.\<close>

definition default_opt :: "bool \<Rightarrow> bool option \<Rightarrow> bool option" where
  "default_opt d b = (case b of None \<Rightarrow> Some d | Some x \<Rightarrow> Some x)"

definition setOptions :: "options \<Rightarrow> options" where
  "setOptions opts =
     opts\<lparr>opt_add := default_opt True (opt_add opts),
          opt_remove := default_opt True (opt_remove opts),
          opt_merge := default_opt True (opt_merge opts)\<rparr>"

text \<open>\<^verbatim>\<open>_.extend({merge: false}, options, addOptions)\<close> with \<^verbatim>\<open>{add: true, remove: false}\<close>.\<close>

definition addOptions :: "options \<Rightarrow> options" where
  "addOptions opts =
     opts\<lparr>opt_merge := default_opt False (opt_merge opts),
          opt_add := Some True,
          opt_remove := Some False\<rparr>"

text \<open>What a caller passes: a bare attribute bag or a record instance.\<close>

datatype entry = Bag attrs | Rec nat

text \<open>What \<^verbatim>\<open>get\<close> and \<^verbatim>\<open>remove\<close> accept besides: a primitive value used as a key.\<close>

datatype probe = PKey jsval | PEntry entry

text \<open>
  The elements of the list that \<^verbatim>\<open>set\<close> returns: the record an entry resolved to,
  \<^verbatim>\<open>false\<close> for a rejected entry, or the entry itself when nothing was done with it.
\<close>

datatype slot = Resolved nat | Rejected | Raw entry

text \<open>A single value or a list, as the caller passed it.\<close>

datatype 'a shaped = One 'a | Many "'a list"

subsection \<open>modelId, get\<close>

definition id_attr :: "state \<Rightarrow> string" where
  "id_attr s = (case idAttribute s of None \<Rightarrow> ''id'' | Some k \<Rightarrow> if k = [] then ''id'' else k)"

definition modelId :: "state \<Rightarrow> attrs \<Rightarrow> jsval" where
  "modelId s a = attr_get a (id_attr s)"

definition model_id :: "state \<Rightarrow> nat \<Rightarrow> jsval" where
  "model_id s r = modelId s (attributes (heap s r))"

text \<open>\<^verbatim>\<open>a || b\<close> on index lookups: the first one that is truthy.\<close>

definition orelse :: "'a option \<Rightarrow> 'a option \<Rightarrow> 'a option" where
  "orelse x y = (case x of None \<Rightarrow> y | Some v \<Rightarrow> Some v)"

text \<open>What reading a key of the index answers with, when it is not \<^verbatim>\<open>undefined\<close>: a record
  that was put there, or what the index inherits under that name.\<close>

datatype hit = Hit nat | Inherited string

definition lookup :: "state \<Rightarrow> string \<Rightarrow> hit option" where
  "lookup s k =
     (case byId s k of
        Some r \<Rightarrow> Some (Hit r)
      | None \<Rightarrow> if k \<in> set proto_keys then Some (Inherited k) else None)"

text \<open>
  \<^verbatim>\<open>get\<close>: \<^verbatim>\<open>this._byId[obj] || this._byId[id] || this._byId[obj.cid]\<close>, where \<^verbatim>\<open>id\<close> is
  the identifier attribute of the bag, or of the record's attributes. A primitive value
  has neither that attribute nor a \<^verbatim>\<open>cid\<close> (the identifier attribute is taken not to name
  a property that strings, numbers or booleans have or inherit).
\<close>

fun get :: "state \<Rightarrow> probe \<Rightarrow> hit option" where
  "get s (PKey v) =
     (if nullish v then None
      else orelse (lookup s (to_key v))
             (orelse (lookup s (to_key JUndefined)) (lookup s (to_key JUndefined))))"
| "get s (PEntry (Bag a)) =
     orelse (lookup s object_key)
       (orelse (lookup s (to_key (modelId s a))) (lookup s (to_key (attr_get a ''cid''))))"
| "get s (PEntry (Rec r)) =
     orelse (lookup s object_key)
       (orelse (lookup s (to_key (model_id s r))) (lookup s (cid_key r)))"

subsection \<open>The aggregate listener\<close>

text \<open>
  \<^verbatim>\<open>_onModelEvent\<close> for the notifications the collection's own operations make a record
  emit. For "add" and "remove" the collection passed along is this one. A "change"
  re-keys the index when the domain identifier changed; every notification is then
  re-emitted on the collection. (The "destroy" branch, which calls \<^verbatim>\<open>remove\<close>, is not
  reached by these operations.)
\<close>

definition rekey :: "nat \<Rightarrow> state \<Rightarrow> state" where
  "rekey r s =
     (let prevId = modelId s (previous (heap s r));
          newId = model_id s r
      in if prevId \<noteq> newId then
           let b1 = (if \<not> nullish prevId then (byId s)(to_key prevId := None) else byId s);
               b2 = (if \<not> nullish newId then b1(to_key newId \<mapsto> r) else b1)
           in s\<lparr>byId := b2\<rparr>
         else s)"

definition onModelEvent :: "notification \<Rightarrow> state \<Rightarrow> state" where
  "onModelEvent ev s =
     (let s1 = (case ev of N_change r \<Rightarrow> rekey r s | _ \<Rightarrow> s)
      in s1\<lparr>log := log s1 @ [ev]\<rparr>)"

text \<open>
  Modelled from the spec: the publish/subscribe capability of the event base class.
  A record's \<^verbatim>\<open>trigger\<close> emits the notification on the record, which calls the
  collection's listener once per subscription.
\<close>

definition trigger :: "nat \<Rightarrow> notification \<Rightarrow> state \<Rightarrow> state" where
  "trigger r ev s = (onModelEvent ev ^^ subs s r) (s\<lparr>emitted := emitted s @ [ev]\<rparr>)"

subsection \<open>References\<close>

definition addReference :: "nat \<Rightarrow> state \<Rightarrow> state" where
  "addReference m s =
     (let b1 = (byId s)(cid_key m \<mapsto> m);
          b2 = (if \<not> nullish (model_id s m) then b1(to_key (model_id s m) \<mapsto> m) else b1)
      in s\<lparr>byId := b2, subs := (subs s)(m := Suc (subs s m))\<rparr>)"

definition removeReference :: "nat \<Rightarrow> state \<Rightarrow> state" where
  "removeReference m s =
     s\<lparr>heap := (if collection (heap s m) = Self
                 then (heap s)(m := (heap s m)\<lparr>collection := Unowned\<rparr>) else heap s),
       subs := (subs s)(m := 0)\<rparr>"

text \<open>
  Modelled from the spec: \<^verbatim>\<open>new this.model(attrs, options)\<close>. The record class
  allocates a record with the next client identity, owned by the collection that is
  passed in the options, holding the given attributes, with the validation error of
  these attributes if they are invalid.
\<close>

definition construct :: "state \<Rightarrow> attrs \<Rightarrow> state" where
  "construct s a =
     s\<lparr>heap := (heap s)(next_cid s :=
                  \<lparr>attributes = a, previous = a, changed = [],
                   validationError = validate s a, collection = Self\<rparr>),
       next_cid := Suc (next_cid s),
       subs := (subs s)(next_cid s := 0)\<rparr>"

text \<open>
  \<^verbatim>\<open>_prepareModel\<close>: a record instance is taken as it is (and owned if it has no owner);
  a bag is given to the record class. A record with a truthy validation error
  (\<^verbatim>\<open>!model.validationError\<close> is false) is announced by an "invalid" notification on the
  collection and the result is \<^verbatim>\<open>false\<close>.
\<close>

fun prepareModel :: "state \<Rightarrow> entry \<Rightarrow> state \<times> nat option" where
  "prepareModel s (Rec r) =
     (if collection (heap s r) = Unowned
      then (s\<lparr>heap := (heap s)(r := (heap s r)\<lparr>collection := Self\<rparr>)\<rparr>, Some r)
      else (s, Some r))"
| "prepareModel s (Bag a) =
     (let n = next_cid s;
          s1 = construct s a
      in case validationError (heap s1 n) of
           None \<Rightarrow> (s1, Some n)
         | Some err \<Rightarrow>
             if js_truthy err then (s1\<lparr>log := log s1 @ [N_invalid err]\<rparr>, None)
             else (s1, Some n))"

subsection \<open>sort\<close>

text \<open>
  Modelled from the spec: \<^verbatim>\<open>sortBy\<close> is not defined in the collection's source (it is
  looked up on the prototype chain, which leaves the sources); it is a stable ascending
  sort by the key. Records whose keys are not comparable keep their order.
\<close>

fun str_less :: "string \<Rightarrow> string \<Rightarrow> bool" where
  "str_less [] [] = False"
| "str_less [] (y # ys) = True"
| "str_less (x # xs) [] = False"
| "str_less (x # xs) (y # ys) =
     ((of_char x :: nat) < of_char y \<or> (x = y \<and> str_less xs ys))"

fun js_gt :: "jsval \<Rightarrow> jsval \<Rightarrow> bool" where
  "js_gt (JNum a) (JNum b) = (sint b < sint a)"
| "js_gt (JStr a) (JStr b) = str_less b a"
| "js_gt (JBool a) (JBool b) = (a \<and> \<not> b)"
| "js_gt (JInherited a) (JInherited b) = str_less (to_key (JInherited b)) (to_key (JInherited a))"
| "js_gt _ _ = False"

fun insort_js :: "('a \<Rightarrow> 'a \<Rightarrow> bool) \<Rightarrow> 'a \<Rightarrow> 'a list \<Rightarrow> 'a list" where
  "insort_js gt x [] = [x]"
| "insort_js gt x (y # ys) = (if gt x y then y # insort_js gt x ys else x # y # ys)"

definition sort_js :: "('a \<Rightarrow> 'a \<Rightarrow> bool) \<Rightarrow> 'a list \<Rightarrow> 'a list" where
  "sort_js gt xs = foldr (insort_js gt) xs []"

definition sortBy :: "('a \<Rightarrow> jsval) \<Rightarrow> 'a list \<Rightarrow> 'a list" where
  "sortBy key xs = sort_js (\<lambda>x y. js_gt (key x) (key y)) xs"

text \<open>\<^verbatim>\<open>!this.comparator\<close>: no comparator, or the empty field name.\<close>

definition has_comparator :: "state \<Rightarrow> bool" where
  "has_comparator s = (case comparator s of None \<Rightarrow> False | Some (Field f) \<Rightarrow> f \<noteq> [] | Some _ \<Rightarrow> True)"

definition sort_c :: "state \<Rightarrow> options \<Rightarrow> error + state" where
  "sort_c s opts =
     (if \<not> has_comparator s then Inl NoComparator
      else
        let ms = (case comparator s of
                    Some (Field f) \<Rightarrow> sortBy (\<lambda>r. attr_get (attributes (heap s r)) f) (models s)
                  | Some (KeyFn g) \<Rightarrow> sortBy (\<lambda>r. g (attributes (heap s r))) (models s)
                  | Some (CmpFn c) \<Rightarrow>
                      sort_js (\<lambda>x y. 0 < c (attributes (heap s x)) (attributes (heap s y))) (models s)
                  | None \<Rightarrow> models s);
            s1 = s\<lparr>models := ms\<rparr>
        in Inr (if \<not> truthy (opt_silent opts) then s1\<lparr>log := log s1 @ [N_sort]\<rparr> else s1))"

subsection \<open>remove\<close>

text \<open>\<^verbatim>\<open>indexOf\<close>: the first position of the record, or \<open>-1\<close>.\<close>

fun index_of :: "nat list \<Rightarrow> nat \<Rightarrow> int" where
  "index_of [] r = - 1"
| "index_of (x # xs) r =
     (if x = r then 0 else (let i = index_of xs r in if i < 0 then - 1 else i + 1))"

text \<open>\<^verbatim>\<open>splice(i, 1)\<close> and \<^verbatim>\<open>splice(i, 0, x)\<close>: a negative start counts from the end, and the
  start is clamped to the array.\<close>

definition splice_start :: "'a list \<Rightarrow> int \<Rightarrow> nat" where
  "splice_start xs i =
     (let n = int (length xs) in nat (if i < 0 then max (n + i) 0 else min i n))"

definition splice_del :: "'a list \<Rightarrow> int \<Rightarrow> 'a list" where
  "splice_del xs i = take (splice_start xs i) xs @ drop (Suc (splice_start xs i)) xs"

definition splice_ins :: "'a list \<Rightarrow> int \<Rightarrow> 'a \<Rightarrow> 'a list" where
  "splice_ins xs i x = take (splice_start xs i) xs @ x # drop (splice_start xs i) xs"

text \<open>
  The body of the loop of \<^verbatim>\<open>remove\<close> for an entry that resolved to the record \<open>m\<close>.
  The options object is shared: \<^verbatim>\<open>options.index\<close> is written before the notification,
  and stays written.
\<close>

definition remove_one :: "bool \<Rightarrow> nat \<Rightarrow> state \<times> int option \<Rightarrow> state \<times> int option" where
  "remove_one silent m = (\<lambda>(s, ix).
     let mid = model_id s m;
         b1 = (if \<not> nullish mid then (byId s)(to_key mid := None) else byId s);
         b2 = b1(cid_key m := None);
         i = index_of (models s) m;
         s1 = s\<lparr>byId := b2, models := splice_del (models s) i, len := len s - 1\<rparr>;
         s2 = (if \<not> silent then trigger m (N_remove m (Some i)) s1 else s1);
         ix2 = (if \<not> silent then Some i else ix)
     in (removeReference m s2, ix2))"

text \<open>
  The loop of \<^verbatim>\<open>remove\<close>: an entry for which \<^verbatim>\<open>get\<close> answers with nothing is skipped; for a
  record the body runs; for anything else, reading \<^verbatim>\<open>model.attributes\<close> gives \<^verbatim>\<open>undefined\<close>
  and \<^verbatim>\<open>modelId\<close> throws on it.
\<close>

fun remove_loop ::
  "bool \<Rightarrow> probe list \<Rightarrow> state \<times> int option \<Rightarrow> error + (state \<times> int option) \<times> nat option list" where
  "remove_loop silent [] sx = Inr (sx, [])"
| "remove_loop silent (p # ps) sx =
     (case get (fst sx) p of
        None \<Rightarrow>
          (case remove_loop silent ps sx of
             Inl err \<Rightarrow> Inl err
           | Inr (sx2, out) \<Rightarrow> Inr (sx2, None # out))
      | Some (Inherited k) \<Rightarrow> Inl TypeError
      | Some (Hit m) \<Rightarrow>
          (case remove_loop silent ps (remove_one silent m sx) of
             Inl err \<Rightarrow> Inl err
           | Inr (sx2, out) \<Rightarrow> Inr (sx2, Some m # out)))"

definition remove_c :: "state \<Rightarrow> probe shaped \<Rightarrow> options \<Rightarrow> error + state \<times> nat option shaped" where
  "remove_c s inp opts =
     (let ps = (case inp of One p \<Rightarrow> [p] | Many ps \<Rightarrow> ps)
      in case remove_loop (truthy (opt_silent opts)) ps (s, opt_index opts) of
           Inl err \<Rightarrow> Inl err
         | Inr (sx, out) \<Rightarrow>
             Inr (fst sx, case inp of One p \<Rightarrow> One (hd out) | Many ps \<Rightarrow> Many out))"

subsection \<open>set\<close>

text \<open>The variables of the first loop of \<^verbatim>\<open>set\<close>; \<^verbatim>\<open>model\<close> keeps its value from one
  turn of the loop to the next.\<close>

record set_vars =
  v_models :: "slot list"
  v_toAdd :: "nat list"
  v_modelMap :: "string set"
  v_order :: "nat list option"
  v_orderChanged :: bool
  v_sort :: bool
  v_model :: "nat option"

text \<open>
  Modelled from the spec: \<^verbatim>\<open>isNew\<close> holds of a record that has no domain identifier yet.
\<close>

definition isNew :: "state \<Rightarrow> nat \<Rightarrow> bool" where
  "isNew s m = nullish (model_id s m)"

text \<open>\<^verbatim>\<open>existing.set(attrs, options)\<close>: the update, and its "change" unless silenced.\<close>

definition merge_into :: "bool \<Rightarrow> nat \<Rightarrow> attrs \<Rightarrow> state \<Rightarrow> state" where
  "merge_into silent ex a s =
     (let m = model_set (heap s ex) a;
          s1 = s\<lparr>heap := (heap s)(ex := m)\<rparr>
      in if \<not> silent \<and> changed m \<noteq> [] then trigger ex (N_change ex) s1 else s1)"

text \<open>\<^verbatim>\<open>attrs !== existing\<close>: the entry is not that very record.\<close>

definition differs :: "entry \<Rightarrow> nat \<Rightarrow> bool" where
  "differs e ex = (case e of Bag a \<Rightarrow> True | Rec r \<Rightarrow> r \<noteq> ex)"

definition entry_attrs :: "state \<Rightarrow> entry \<Rightarrow> attrs" where
  "entry_attrs s e = (case e of Bag a \<Rightarrow> a | Rec r \<Rightarrow> attributes (heap s r))"

text \<open>The end of the loop body, from \<^verbatim>\<open>model = existing || model\<close> on, for a record \<open>m\<close>.\<close>

definition dedupe :: "nat \<Rightarrow> nat \<Rightarrow> state \<times> set_vars \<Rightarrow> state \<times> set_vars" where
  "dedupe i m = (\<lambda>(s, v).
     let k = to_key (model_id s m);
         push = (v_order v \<noteq> None \<and> (isNew s m \<or> \<not> in_map (v_modelMap v) k));
         v1 = (if push then
                 v\<lparr>v_order := map_option (\<lambda>ord. ord @ [m]) (v_order v),
                   v_orderChanged := (v_orderChanged v \<or> length (models s) \<le> i \<or> m \<noteq> models s ! i)\<rparr>
               else v)
     in (s, v1\<lparr>v_modelMap := insert k (v_modelMap v1), v_model := Some m\<rparr>))"

text \<open>
  The body of the first loop, for what \<^verbatim>\<open>existing = this.get(attrs)\<close> is when it is a record
  or nothing.
\<close>

definition classify_body ::
  "options \<Rightarrow> bool \<Rightarrow> string option \<Rightarrow> nat \<Rightarrow> entry \<Rightarrow> nat option \<Rightarrow>
   state \<times> set_vars \<Rightarrow> state \<times> set_vars" where
  "classify_body opts sortable sortAttr i e existing = (\<lambda>(s, v).
     case existing of
       Some ex \<Rightarrow>
         let v1 = (if truthy (opt_remove opts)
                   then v\<lparr>v_modelMap := insert (cid_key ex) (v_modelMap v)\<rparr> else v);
             (s2, v2) =
               (if truthy (opt_merge opts) \<and> differs e ex then
                  let s2 = merge_into (truthy (opt_silent opts)) ex (entry_attrs s e) s
                  in (s2, v1\<lparr>v_sort := (v_sort v1 \<or> (sortable \<and> hasChanged (heap s2 ex) sortAttr))\<rparr>)
                else (s, v1))
         in dedupe i ex (s2, v2\<lparr>v_models := v_models v2 @ [Resolved ex]\<rparr>)
     | None \<Rightarrow>
         if truthy (opt_add opts) then
           (case prepareModel s e of
              (s1, None) \<Rightarrow> (s1, v\<lparr>v_models := v_models v @ [Rejected], v_model := None\<rparr>)
            | (s1, Some m) \<Rightarrow>
                dedupe i m (addReference m s1,
                            v\<lparr>v_models := v_models v @ [Resolved m], v_toAdd := v_toAdd v @ [m]\<rparr>))
         else
           (case v_model v of
              None \<Rightarrow> (s, v\<lparr>v_models := v_models v @ [Raw e]\<rparr>)
            | Some m \<Rightarrow> dedupe i m (s, v\<lparr>v_models := v_models v @ [Raw e]\<rparr>)))"

text \<open>
  One turn of the first loop. When \<^verbatim>\<open>get\<close> answers with something that is not a record,
  the turn throws before it changes anything: \<^verbatim>\<open>existing.set\<close> is not a function when
  the entry is merged, and otherwise \<^verbatim>\<open>modelId\<close> reads a property of
  \<^verbatim>\<open>existing.attributes\<close>, which is \<^verbatim>\<open>undefined\<close>.
\<close>

definition classify_step ::
  "options \<Rightarrow> bool \<Rightarrow> string option \<Rightarrow> nat \<Rightarrow> entry \<Rightarrow> state \<times> set_vars \<Rightarrow>
   error + state \<times> set_vars" where
  "classify_step opts sortable sortAttr i e = (\<lambda>(s, v).
     case get s (PEntry e) of
       Some (Inherited k) \<Rightarrow> Inl TypeError
     | Some (Hit ex) \<Rightarrow> Inr (classify_body opts sortable sortAttr i e (Some ex) (s, v))
     | None \<Rightarrow> Inr (classify_body opts sortable sortAttr i e None (s, v)))"

fun classify ::
  "options \<Rightarrow> bool \<Rightarrow> string option \<Rightarrow> nat \<Rightarrow> entry list \<Rightarrow> state \<times> set_vars \<Rightarrow>
   error + state \<times> set_vars" where
  "classify opts sortable sortAttr i [] sv = Inr sv"
| "classify opts sortable sortAttr i (e # es) sv =
     (case classify_step opts sortable sortAttr i e sv of
        Inl err \<Rightarrow> Inl err
      | Inr sv1 \<Rightarrow> classify opts sortable sortAttr (Suc i) es sv1)"

text \<open>The second loop: the members that were not seen, then \<^verbatim>\<open>remove\<close> on them with the
  same options object. Reading \<^verbatim>\<open>this.models[i].cid\<close> beyond the array throws.\<close>

definition remove_stale ::
  "bool \<Rightarrow> string set \<Rightarrow> state \<times> int option \<Rightarrow> error + state \<times> int option" where
  "remove_stale silent modelMap = (\<lambda>(s, ix).
     if int (length (models s)) < len s then Inl TypeError
     else
       let toRemove = filter (\<lambda>m. \<not> in_map modelMap (cid_key m)) (take (nat (len s)) (models s))
       in if toRemove \<noteq> []
          then (case remove_loop silent (map (\<lambda>m. PEntry (Rec m)) toRemove) (s, ix) of
                  Inl err \<Rightarrow> Inl err
                | Inr (sx, out) \<Rightarrow> Inr sx)
          else Inr (s, ix))"

fun splice_all :: "nat list \<Rightarrow> int \<Rightarrow> nat list \<Rightarrow> nat list" where
  "splice_all ms a [] = ms"
| "splice_all ms a (x # xs) = splice_all (splice_ins ms a x) (a + 1) xs"

text \<open>The "add" notifications: the options carry \<^verbatim>\<open>at + i\<close> as index when \<^verbatim>\<open>at\<close> is given,
  and are the caller's options object as it is otherwise.\<close>

fun trigger_adds :: "int option \<Rightarrow> int option \<Rightarrow> nat list \<Rightarrow> state \<Rightarrow> state" where
  "trigger_adds at ix [] s = s"
| "trigger_adds at ix (m # ms) s =
     trigger_adds (map_option (\<lambda>a. a + 1) at) ix ms
       (trigger m (N_add m (case at of Some a \<Rightarrow> Some a | None \<Rightarrow> ix)) s)"

datatype set_input = Single "entry option" | Plural "entry list"

datatype set_output = SingleOut "slot option" | PluralOut "slot list"

text \<open>The body of \<^verbatim>\<open>if (toAdd.length || orderChanged)\<close>: the length, and the staged
  records spliced in, or the sequence replaced by the new order, or the records appended.\<close>

definition set_splice :: "int option \<Rightarrow> set_vars \<Rightarrow> state \<Rightarrow> state" where
  "set_splice at v s =
     s\<lparr>len := len s + int (length (v_toAdd v)),
       models := (case at of
                    Some a \<Rightarrow> splice_all (models s) a (v_toAdd v)
                  | None \<Rightarrow> (case v_order v of
                               Some ord \<Rightarrow> ord
                             | None \<Rightarrow> models s @ v_toAdd v))\<rparr>"

text \<open>The "add" notifications and the "sort" notification, unless the call is silent.\<close>

definition set_events :: "options \<Rightarrow> int option \<Rightarrow> int option \<Rightarrow> set_vars \<Rightarrow> bool \<Rightarrow> state \<Rightarrow> state" where
  "set_events opts at ix v srt s =
     (if \<not> truthy (opt_silent opts) then
        let s3 = trigger_adds at ix (v_toAdd v) s
        in if srt \<or> v_orderChanged v then s3\<lparr>log := log s3 @ [N_sort]\<rparr> else s3
      else s)"

definition set_finish ::
  "options \<Rightarrow> bool \<Rightarrow> int option \<Rightarrow> set_vars \<Rightarrow> state \<times> int option \<Rightarrow> error + state" where
  "set_finish opts sortable at v = (\<lambda>(s, ix).
     let grow = (v_toAdd v \<noteq> [] \<or> v_orderChanged v);
         srt = (v_sort v \<or> (grow \<and> sortable));
         s1 = (if grow then set_splice at v s else s)
     in case (if srt then sort_c s1 (no_options\<lparr>opt_silent := Some True\<rparr>) else Inr s1) of
          Inl err \<Rightarrow> Inl err
        | Inr s2 \<Rightarrow> Inr (set_events opts at ix v srt s2))"

text \<open>The head of \<^verbatim>\<open>set\<close>, on the options after the defaults: the list of entries, the
  position (a negative one counts from the end of the collection before the call), whether
  the call may sort, the field the comparator names, and the variables before the loop.\<close>

definition entries_of :: "set_input \<Rightarrow> entry list" where
  "entries_of inp = (case inp of Single None \<Rightarrow> [] | Single (Some e) \<Rightarrow> [e] | Plural es \<Rightarrow> es)"

definition position :: "state \<Rightarrow> options \<Rightarrow> int option" where
  "position s opts =
     (case opt_at opts of
        None \<Rightarrow> None
      | Some a \<Rightarrow> Some (if a < 0 then a + (len s + 1) else a))"

definition sortable :: "state \<Rightarrow> options \<Rightarrow> bool" where
  "sortable s opts = (has_comparator s \<and> position s opts = None \<and> opt_sort opts \<noteq> Some False)"

definition sortAttr :: "state \<Rightarrow> string option" where
  "sortAttr s = (case comparator s of Some (Field f) \<Rightarrow> Some f | _ \<Rightarrow> None)"

definition init_vars :: "state \<Rightarrow> options \<Rightarrow> set_vars" where
  "init_vars s opts =
     \<lparr>v_models = [], v_toAdd = [], v_modelMap = {},
      v_order = (if \<not> sortable s opts \<and> truthy (opt_add opts) \<and> truthy (opt_remove opts)
                 then Some [] else None),
      v_orderChanged = False, v_sort = False, v_model = None\<rparr>"

text \<open>\<^verbatim>\<open>singular ? models[0] : models\<close>.\<close>

definition set_result :: "set_input \<Rightarrow> slot list \<Rightarrow> set_output" where
  "set_result inp slots =
     (case inp of
        Single _ \<Rightarrow> SingleOut (case slots of [] \<Rightarrow> None | x # _ \<Rightarrow> Some x)
      | Plural _ \<Rightarrow> PluralOut slots)"

text \<open>The removal pass of \<^verbatim>\<open>set\<close>, under \<^verbatim>\<open>if (remove)\<close>.\<close>

definition removal_pass :: "options \<Rightarrow> state \<times> set_vars \<Rightarrow> error + state \<times> int option" where
  "removal_pass opts = (\<lambda>(s1, v).
     if truthy (opt_remove opts)
     then remove_stale (truthy (opt_silent opts)) (v_modelMap v) (s1, opt_index opts)
     else Inr (s1, opt_index opts))"

text \<open>\<^verbatim>\<open>set\<close> after its first loop: the removal pass, the splice and the sort, the
  notifications, and the result.\<close>

definition set_rest ::
  "state \<Rightarrow> set_input \<Rightarrow> options \<Rightarrow> state \<times> set_vars \<Rightarrow> error + state \<times> set_output" where
  "set_rest s inp opts = (\<lambda>(s1, v).
     case removal_pass opts (s1, v) of
       Inl err \<Rightarrow> Inl err
     | Inr sx \<Rightarrow>
         (case set_finish opts (sortable s opts) (position s opts) v sx of
            Inl err \<Rightarrow> Inl err
          | Inr s3 \<Rightarrow> Inr (s3, set_result inp (v_models v))))"

text \<open>The first loop of the call \<^verbatim>\<open>set(models, options)\<close> on the collection \<open>s\<close>, from the
  turn \<open>i\<close> on, for the entries still to come.\<close>

definition first_loop ::
  "state \<Rightarrow> options \<Rightarrow> nat \<Rightarrow> entry list \<Rightarrow> state \<times> set_vars \<Rightarrow> error + state \<times> set_vars" where
  "first_loop s options i es sv =
     classify (setOptions options) (sortable s (setOptions options)) (sortAttr s) i es sv"

definition set_c :: "state \<Rightarrow> set_input \<Rightarrow> options \<Rightarrow> error + state \<times> set_output" where
  "set_c s inp options =
     (case first_loop s options 0 (entries_of inp) (s, init_vars s (setOptions options)) of
        Inl err \<Rightarrow> Inl err
      | Inr sv \<Rightarrow> set_rest s inp (setOptions options) sv)"

subsection \<open>add, reset, toArray\<close>

definition add_c :: "state \<Rightarrow> set_input \<Rightarrow> options \<Rightarrow> error + state \<times> set_output" where
  "add_c s inp options = set_c s inp (addOptions options)"

definition reset_state :: "state \<Rightarrow> state" where
  "reset_state s = s\<lparr>len := 0, models := [], byId := Map.empty\<rparr>"

definition reset_c :: "state \<Rightarrow> set_input \<Rightarrow> options \<Rightarrow> error + state \<times> set_output" where
  "reset_c s inp options =
     (let s1 = fold removeReference (models s) s;
          prev = models s;
          s2 = reset_state s1
      in case add_c s2 inp (options\<lparr>opt_silent := default_opt True (opt_silent options)\<rparr>) of
           Inl err \<Rightarrow> Inl err
         | Inr (s3, out) \<Rightarrow>
             Inr (if \<not> truthy (opt_silent options) then s3\<lparr>log := log s3 @ [N_reset prev]\<rparr> else s3,
                  out))"


section \<open>The operations on the keys the index has itself\<close>

text \<open>
  What the operations do as long as no lookup is answered with an inherited name: \<^verbatim>\<open>get\<close>
  reads the keys that the index has itself, and no turn of a loop throws. The
  properties of the operations are proved about these first.
\<close>

fun get_own :: "state \<Rightarrow> probe \<Rightarrow> nat option" where
  "get_own s (PKey v) =
     (if nullish v then None
      else orelse (byId s (to_key v)) (byId s (to_key JUndefined)))"
| "get_own s (PEntry (Bag a)) =
     orelse (byId s object_key)
       (orelse (byId s (to_key (modelId s a))) (byId s (to_key (attr_get a ''cid''))))"
| "get_own s (PEntry (Rec r)) =
     orelse (byId s object_key)
       (orelse (byId s (to_key (model_id s r))) (byId s (cid_key r)))"

fun remove_loop_own :: "bool \<Rightarrow> probe list \<Rightarrow> state \<times> int option \<Rightarrow> (state \<times> int option) \<times> nat option list" where
  "remove_loop_own silent [] sx = (sx, [])"
| "remove_loop_own silent (p # ps) sx =
     (case get_own (fst sx) p of
        None \<Rightarrow> (let (sx2, out) = remove_loop_own silent ps sx in (sx2, None # out))
      | Some m \<Rightarrow> (let (sx2, out) = remove_loop_own silent ps (remove_one silent m sx)
                  in (sx2, Some m # out)))"

definition classify_step_own ::
  "options \<Rightarrow> bool \<Rightarrow> string option \<Rightarrow> nat \<Rightarrow> entry \<Rightarrow> state \<times> set_vars \<Rightarrow> state \<times> set_vars" where
  "classify_step_own opts srt sa i e = (\<lambda>(s, v).
     classify_body opts srt sa i e (get_own s (PEntry e)) (s, v))"

fun classify_own ::
  "options \<Rightarrow> bool \<Rightarrow> string option \<Rightarrow> nat \<Rightarrow> entry list \<Rightarrow> state \<times> set_vars \<Rightarrow> state \<times> set_vars" where
  "classify_own opts srt sa i [] sv = sv"
| "classify_own opts srt sa i (e # es) sv =
     classify_own opts srt sa (Suc i) es (classify_step_own opts srt sa i e sv)"

definition remove_stale_own :: "bool \<Rightarrow> string set \<Rightarrow> state \<times> int option \<Rightarrow> error + state \<times> int option" where
  "remove_stale_own silent modelMap = (\<lambda>(s, ix).
     if int (length (models s)) < len s then Inl TypeError
     else
       let toRemove = filter (\<lambda>m. cid_key m \<notin> modelMap) (take (nat (len s)) (models s))
       in if toRemove \<noteq> []
          then Inr (fst (remove_loop_own silent (map (\<lambda>m. PEntry (Rec m)) toRemove) (s, ix)))
          else Inr (s, ix))"

definition set_c_own :: "state \<Rightarrow> set_input \<Rightarrow> options \<Rightarrow> error + state \<times> set_output" where
  "set_c_own s inp options =
     (let opts = setOptions options;
          (s1, v) = classify_own opts (sortable s opts) (sortAttr s) 0 (entries_of inp)
                      (s, init_vars s opts)
      in case (if truthy (opt_remove opts)
               then remove_stale_own (truthy (opt_silent opts)) (v_modelMap v) (s1, opt_index opts)
               else Inr (s1, opt_index opts)) of
           Inl err \<Rightarrow> Inl err
         | Inr sx \<Rightarrow>
             (case set_finish opts (sortable s opts) (position s opts) v sx of
                Inl err \<Rightarrow> Inl err
              | Inr s3 \<Rightarrow> Inr (s3, set_result inp (v_models v))))"

definition add_c_own :: "state \<Rightarrow> set_input \<Rightarrow> options \<Rightarrow> error + state \<times> set_output" where
  "add_c_own s inp options = set_c_own s inp (addOptions options)"

section \<open>Well-formed collections\<close>

text \<open>
  The index has one key space for client identities and domain identifiers, and \<^verbatim>\<open>get\<close>
  probes it with the string form of whatever it is given. A domain identifier is plain
  when its string form is neither the string form of a missing identifier or of a bare
  object, nor spelled like a client identity: the caller keeps the two key spaces apart.
\<close>

definition is_digit :: "char \<Rightarrow> bool" where
  "is_digit c = (c \<in> set ''0123456789'')"

definition is_cid_key :: "string \<Rightarrow> bool" where
  "is_cid_key k = (case k of [] \<Rightarrow> False | c # ds \<Rightarrow> c = CHR ''c'' \<and> ds \<noteq> [] \<and> list_all is_digit ds)"

definition reserved_key :: "string \<Rightarrow> bool" where
  "reserved_key k = (k = object_key \<or> k = ''undefined'' \<or> k = ''null'')"

definition plain_key :: "string \<Rightarrow> bool" where
  "plain_key k = (\<not> reserved_key k \<and> \<not> is_cid_key k)"

text \<open>
  The index is exact for a list of records: no record is listed twice, every listed
  record is an allocated record that the collection listens to once and that is
  registered under its client identity and, if it has a domain identifier, under that
  plain identifier; and the index holds nothing else.
\<close>

definition indexed :: "state \<Rightarrow> nat list \<Rightarrow> bool" where
  "indexed s rs =
     (distinct rs \<and>
      (\<forall>r \<in> set rs.
          r < next_cid s \<and> subs s r = Suc 0 \<and> byId s (cid_key r) = Some r \<and>
          (nullish (model_id s r) \<or>
           (plain_key (to_key (model_id s r)) \<and> byId s (to_key (model_id s r)) = Some r))) \<and>
      (\<forall>k r. byId s k = Some r \<longrightarrow>
          r \<in> set rs \<and>
          (k = cid_key r \<or> (\<not> nullish (model_id s r) \<and> k = to_key (model_id s r)))))"

text \<open>
  A consistent collection: the cached length is the size of the sequence, and the index
  is exact for the sequence.
\<close>

definition consistent :: "state \<Rightarrow> bool" where
  "consistent s = (len s = int (length (models s)) \<and> indexed s (models s))"

section \<open>Example collections\<close>

definition blank_model :: model where
  "blank_model = \<lparr>attributes = [], previous = [], changed = [], validationError = None,
                   collection = Unowned\<rparr>"

text \<open>A collection as the constructor leaves it when it is given no records.\<close>

definition new_collection :: "comparator option \<Rightarrow> state" where
  "new_collection c =
     \<lparr>heap = (\<lambda>_. blank_model), next_cid = 0, subs = (\<lambda>_. 0), models = [], len = 0,
      byId = Map.empty, comparator = c, idAttribute = None, validate = (\<lambda>_. None), log = [],
      emitted = []\<rparr>"

definition saved_model :: "attrs \<Rightarrow> model" where
  "saved_model a = \<lparr>attributes = a, previous = a, changed = [], validationError = None,
                     collection = Self\<rparr>"

text \<open>An empty collection, and a record \<^verbatim>\<open>{rank: 9}\<close> the caller made and has not saved.\<close>

definition unsaved_state :: state where
  "unsaved_state =
     (new_collection None)
       \<lparr>heap := (\<lambda>_. blank_model)(0 := blank_model\<lparr>attributes := [(''rank'', JNum 9)]\<rparr>),
        next_cid := 1\<rparr>"

text \<open>A collection without comparator holding the record \<^verbatim>\<open>{id: 1, rank: 3}\<close>.\<close>

definition single_state :: state where
  "single_state =
     (new_collection None)
       \<lparr>heap := (\<lambda>_. blank_model)(0 := saved_model [(''id'', JNum 1), (''rank'', JNum 3)]),
        next_cid := 1, subs := (\<lambda>_. 0)(0 := Suc 0), models := [0], len := 1,
        byId := [''c0'' \<mapsto> 0, ''1'' \<mapsto> 0]\<rparr>"

text \<open>
  The collection of the spec's scenarios: comparator \<^verbatim>\<open>"rank"\<close>, the records
  \<^verbatim>\<open>{id: 1, rank: 3}\<close> and \<^verbatim>\<open>{id: 2, rank: 1}\<close>, in sort order.
\<close>

definition ranked_state :: state where
  "ranked_state =
     (new_collection (Some (Field ''rank'')))
       \<lparr>heap := (\<lambda>_. blank_model)
                  (0 := saved_model [(''id'', JNum 1), (''rank'', JNum 3)],
                   1 := saved_model [(''id'', JNum 2), (''rank'', JNum 1)]),
        next_cid := 2, subs := (\<lambda>_. 0)(0 := Suc 0, 1 := Suc 0), models := [1, 0], len := 2,
        byId := [''c0'' \<mapsto> 0, ''1'' \<mapsto> 0, ''c1'' \<mapsto> 1, ''2'' \<mapsto> 1]\<rparr>"

text \<open>What a call left in the attribute \<^verbatim>\<open>rank\<close> of the record with client identity 0.\<close>

definition rank_of :: "error + state \<times> set_output \<Rightarrow> jsval" where
  "rank_of r = (case r of Inl e \<Rightarrow> JUndefined
                | Inr (s, out) \<Rightarrow> attr_get (attributes (heap s 0)) ''rank'')"

section \<open>Kinds of notifications\<close>

fun is_add :: "notification \<Rightarrow> bool" where
  "is_add (N_add m i) = True"
| "is_add _ = False"

fun is_remove :: "notification \<Rightarrow> bool" where
  "is_remove (N_remove m i) = True"
| "is_remove _ = False"

fun is_change :: "notification \<Rightarrow> bool" where
  "is_change (N_change m) = True"
| "is_change _ = False"

fun is_invalid :: "notification \<Rightarrow> bool" where
  "is_invalid (N_invalid e) = True"
| "is_invalid _ = False"

text \<open>What the first loop of \<^verbatim>\<open>set\<close> can emit: the "change" of a merge, and "invalid".\<close>

definition early :: "notification \<Rightarrow> bool" where
  "early n = (is_change n \<or> is_invalid n)"

text \<open>From \<open>s\<close> to \<open>s'\<close> the notifications emitted all satisfy \<open>P\<close>.\<close>

definition emits :: "(notification \<Rightarrow> bool) \<Rightarrow> state \<Rightarrow> state \<Rightarrow> bool" where
  "emits P s s' = (\<exists>ns. log s' = log s @ ns \<and> list_all P ns)"

section \<open>Auxiliary notions for the proofs\<close>

text \<open>What the last phase of \<^verbatim>\<open>set\<close> leaves: the sequence it builds, sorted or not, has
  the records of the sequence before (or of the new order) and the staged ones.\<close>

definition spliced :: "int option \<Rightarrow> set_vars \<Rightarrow> state \<Rightarrow> nat multiset" where
  "spliced at v s =
     (if v_toAdd v \<noteq> [] \<or> v_orderChanged v then
        (case at of
           Some a \<Rightarrow> mset (models s) + mset (v_toAdd v)
         | None \<Rightarrow> (case v_order v of
                      Some ord \<Rightarrow> mset ord
                    | None \<Rightarrow> mset (models s) + mset (v_toAdd v)))
      else mset (models s))"

text \<open>No record is registered under the string form of a missing identifier
  (\<^verbatim>\<open>undefined\<close>, \<^verbatim>\<open>null\<close>) or of a bare object: a probe that carries no identity
  finds nothing.\<close>

definition probe_free :: "state \<Rightarrow> bool" where
  "probe_free s =
     (byId s object_key = None \<and> byId s ''undefined'' = None \<and> byId s ''null'' = None)"

text \<open>The members are records that were allocated: the next client identity is new.\<close>

definition allocated :: "state \<Rightarrow> bool" where
  "allocated s = (\<forall>r \<in> set (models s). r < next_cid s)"

text \<open>The record a notification is about.\<close>

fun subject :: "notification \<Rightarrow> nat option" where
  "subject (N_add m i) = Some m"
| "subject (N_remove m i) = Some m"
| "subject (N_change m) = Some m"
| "subject _ = None"




text \<open>A collection without comparator whose only member is the unsaved record
  \<^verbatim>\<open>{rank: 9}\<close>.\<close>

definition unsaved_member_state :: state where
  "unsaved_member_state =
     (new_collection None)
       \<lparr>heap := (\<lambda>_. blank_model)(0 := saved_model [(''rank'', JNum 9)]),
        next_cid := 1, subs := (\<lambda>_. 0)(0 := Suc 0), models := [0], len := 1,
        byId := [''c0'' \<mapsto> 0]\<rparr>"

text \<open>The records that the collection and the first loop of \<^verbatim>\<open>set\<close> refer to: the
  members, what the index holds, the staged records, the new order, and the variable
  \<^verbatim>\<open>model\<close>; and the records that a batch names.\<close>

definition refs :: "state \<times> set_vars \<Rightarrow> nat set" where
  "refs = (\<lambda>(s, v).
     set (models s) \<union> ran (byId s) \<union> set (v_toAdd v) \<union>
     (case v_order v of None \<Rightarrow> {} | Some ord \<Rightarrow> set ord) \<union>
     (case v_model v of None \<Rightarrow> {} | Some m \<Rightarrow> {m}))"

fun entry_recs :: "entry \<Rightarrow> nat set" where
  "entry_recs (Bag a) = {}"
| "entry_recs (Rec r) = {r}"

text \<open>Everything the collection and a batch refer to is an allocated record.\<close>

definition all_allocated :: "state \<Rightarrow> entry list \<Rightarrow> bool" where
  "all_allocated s es =
     ((\<forall>r \<in> set (models s) \<union> ran (byId s). r < next_cid s) \<and>
      (\<forall>e \<in> set es. \<forall>r \<in> entry_recs e. r < next_cid s))"

text \<open>A record class that rejects every bag that has a negative \<^verbatim>\<open>rank\<close>.\<close>

definition rank_validate :: "attrs \<Rightarrow> jsval option" where
  "rank_validate a =
     (case attr_get a ''rank'' of
        JNum n \<Rightarrow> if sint n < 0 then Some (JStr ''rank must not be negative'') else None
      | _ \<Rightarrow> None)"

definition validating_state :: state where
  "validating_state = single_state\<lparr>validate := rank_validate\<rparr>"

text \<open>The error with which the record class rejects a bag: its validation error, when
  that is truthy.\<close>

definition rejection :: "state \<Rightarrow> attrs \<Rightarrow> jsval option" where
  "rejection s a =
     (case validate s a of None \<Rightarrow> None | Some err \<Rightarrow> if js_truthy err then Some err else None)"

text \<open>A batch of three bags, the second one with a negative \<^verbatim>\<open>rank\<close>.\<close>

definition rejected_bag :: attrs where
  "rejected_bag = [(''rank'', JNum (- 1))]"

definition batch_before :: "entry list" where
  "batch_before = [Bag [(''id'', JNum 5)]]"

definition batch_after :: "entry list" where
  "batch_after = [Bag [(''id'', JNum 6)]]"

text \<open>One "add" notification for each record of a list, in the order of the list: with the
  index \<open>at + i\<close> for the \<open>i\<close>-th record when a position \<open>at\<close> is given, and all with the
  same index \<open>ix\<close> otherwise.\<close>

definition add_notes :: "int option \<Rightarrow> int option \<Rightarrow> nat list \<Rightarrow> notification list" where
  "add_notes at ix ms =
     map (\<lambda>(i, m). N_add m (case at of Some a \<Rightarrow> Some (a + int i) | None \<Rightarrow> ix))
       (enumerate 0 ms)"

text \<open>From \<open>s\<close> to \<open>s'\<close> the notifications emitted on records all satisfy \<open>P\<close>.\<close>

definition sends :: "(notification \<Rightarrow> bool) \<Rightarrow> state \<Rightarrow> state \<Rightarrow> bool" where
  "sends P s s' = (\<exists>ns. emitted s' = emitted s @ ns \<and> list_all P ns)"

text \<open>A notification that is not "sort".\<close>

fun not_sort :: "notification \<Rightarrow> bool" where
  "not_sort N_sort = False"
| "not_sort _ = True"

section \<open>Properties\<close>

subsection \<open>Evaluation on concrete collections\<close>

lemmas evals =
  get.simps lookup_def proto_keys_def in_map_def classify_step_def classify.simps
  remove_loop.simps remove_stale_def set_c_def set_rest_def removal_pass_def first_loop_def add_c_def remove_c_def
  get_own.simps set_c_own_def entries_of_def position_def sortable_def sortAttr_def init_vars_def set_result_def add_c_own_def addOptions_def setOptions_def default_opt_def no_options_def truthy_def
  has_comparator_def classify_step_own_def classify_body_def dedupe_def orelse_def object_key_def modelId_def
  model_id_def id_attr_def attr_get_def addReference_def removeReference_def isNew_def
  construct_def
  cid_key_def digits.simps digit_char_def remove_stale_own_def set_finish_def set_splice_def
  set_events_def trigger_def
  onModelEvent_def rekey_def merge_into_def model_set_def hasChanged_def entry_attrs_def
  differs_def remove_one_def splice_del_def splice_ins_def splice_start_def
  sort_c_def sortBy_def sort_js_def Let_def

lemmas examples =
  blank_model_def new_collection_def saved_model_def unsaved_state_def single_state_def
  ranked_state_def rank_of_def unsaved_member_state_def rank_validate_def
  validating_state_def

subsection \<open>Client identities as keys\<close>

lemma digit_char_inj: "a < 10 \<Longrightarrow> b < 10 \<Longrightarrow> digit_char a = digit_char b \<Longrightarrow> a = b"
proof -
  assume a: "a < 10" and b: "b < 10" and e: "digit_char a = digit_char b"
  have A: "a \<in> {0,1,2,3,4,5,6,7,8,9}" using a by auto
  have B: "b \<in> {0,1,2,3,4,5,6,7,8,9}" using b by auto
  from A B e show ?thesis
    by (auto simp: digit_char_def)
qed

lemma digit_char_is_digit: "a < 10 \<Longrightarrow> is_digit (digit_char a)"
proof -
  assume a: "a < 10"
  have A: "a \<in> {0,1,2,3,4,5,6,7,8,9}" using a by auto
  then show ?thesis by (auto simp: digit_char_def is_digit_def)
qed

lemma digits_nonempty: "digits n \<noteq> []"
  by (subst digits.simps) simp

lemma digits_all_digit: "list_all is_digit (digits n)"
proof (induction n rule: digits.induct)
  case (1 n)
  show ?case
  proof (cases "n < 10")
    case True
    then show ?thesis by (subst digits.simps) (simp add: digit_char_is_digit)
  next
    case False
    with "1.IH" show ?thesis by (subst digits.simps) (simp add: digit_char_is_digit)
  qed
qed

lemma digits_inj: "digits n = digits m \<Longrightarrow> n = m"
proof (induction n arbitrary: m rule: digits.induct)
  case (1 n)
  show ?case
  proof (cases "n < 10")
    case True
    then have dn: "digits n = [digit_char n]" by (subst digits.simps) simp
    show ?thesis
    proof (cases "m < 10")
      case True
      then have "digits m = [digit_char m]" by (subst digits.simps) simp
      with dn "1.prems" \<open>n < 10\<close> True show ?thesis by (auto dest: digit_char_inj)
    next
      case False
      then have "digits m = digits (m div 10) @ [digit_char (m mod 10)]"
        by (subst digits.simps) simp
      with dn "1.prems" digits_nonempty[of "m div 10"] show ?thesis
        by (cases "digits (m div 10)") auto
    qed
  next
    case False
    then have dn: "digits n = digits (n div 10) @ [digit_char (n mod 10)]"
      by (subst digits.simps) simp
    show ?thesis
    proof (cases "m < 10")
      case True
      then have "digits m = [digit_char m]" by (subst digits.simps) simp
      with dn "1.prems" digits_nonempty[of "n div 10"] show ?thesis
        by (cases "digits (n div 10)") auto
    next
      case m: False
      then have dm: "digits m = digits (m div 10) @ [digit_char (m mod 10)]"
        by (subst digits.simps) simp
      from dn dm "1.prems" have e1: "digits (n div 10) = digits (m div 10)"
        and e2: "digit_char (n mod 10) = digit_char (m mod 10)" by auto
      from "1.IH"[OF False e1] have "n div 10 = m div 10" .
      moreover from e2 have "n mod 10 = m mod 10" by (auto dest!: digit_char_inj[rotated 2])
      ultimately show ?thesis by (metis div_mult_mod_eq)
    qed
  qed
qed

lemma cid_key_inj [simp]: "cid_key a = cid_key b \<longleftrightarrow> a = b"
  by (auto simp: cid_key_def dest: digits_inj)

lemma is_cid_key_cid_key [simp]: "is_cid_key (cid_key n)"
  by (simp add: is_cid_key_def cid_key_def digits_nonempty digits_all_digit)

lemma cid_key_not_reserved [simp]: "\<not> reserved_key (cid_key n)"
  by (simp add: reserved_key_def cid_key_def object_key_def)

lemma cid_key_not_plain [simp]: "\<not> plain_key (cid_key n)"
  by (simp add: plain_key_def)

lemma plain_key_not_cid: "plain_key k \<Longrightarrow> k \<noteq> cid_key n"
  by auto

lemma plain_key_not_reserved:
  "plain_key k \<Longrightarrow> k \<noteq> object_key \<and> k \<noteq> ''undefined'' \<and> k \<noteq> ''null''"
  by (auto simp: plain_key_def reserved_key_def)

lemma nullish_key_reserved: "nullish v \<Longrightarrow> reserved_key (to_key v)"
  by (cases v) (auto simp: reserved_key_def)

subsection \<open>Sorting permutes\<close>

lemma mset_insort_js [simp]: "mset (insort_js gt x xs) = add_mset x (mset xs)"
  by (induction xs) auto

lemma mset_sort_js [simp]: "mset (sort_js gt xs) = mset xs"
  by (induction xs) (auto simp: sort_js_def)

lemma mset_sortBy [simp]: "mset (sortBy key xs) = mset xs"
  by (simp add: sortBy_def)

lemma set_sort_js [simp]: "set (sort_js gt xs) = set xs"
  by (metis mset_sort_js set_mset_mset)

lemma length_sort_js [simp]: "length (sort_js gt xs) = length xs"
  by (metis mset_sort_js size_mset)

lemma distinct_sort_js [simp]: "distinct (sort_js gt xs) = distinct xs"
  by (rule mset_eq_imp_distinct_iff) simp

lemma sort_js_single [simp]: "sort_js gt [x] = [x]"
  by (simp add: sort_js_def)

lemma sort_js_Nil [simp]: "sort_js gt [] = []"
  by (simp add: sort_js_def)

subsection \<open>The example collections are consistent\<close>

lemma consistent_new_collection: "consistent (new_collection c)"
  by (simp add: consistent_def indexed_def new_collection_def)

lemma consistent_single_state: "consistent single_state"
  by (auto simp: consistent_def indexed_def examples evals plain_key_def reserved_key_def
           is_cid_key_def split: if_splits)


section \<open>Properties of the operations on the keys the index has itself\<close>

subsection \<open>What each step emits\<close>

lemma emits_refl [simp]: "emits P s s"
  by (simp add: emits_def)

lemma emits_same_log: "log s' = log s \<Longrightarrow> emits P s s'"
  by (simp add: emits_def)

lemma emits_trans: "emits P s s1 \<Longrightarrow> emits P s1 s2 \<Longrightarrow> emits P s s2"
  by (auto simp: emits_def)

lemma emits_mono: "emits P s s' \<Longrightarrow> (\<And>n. P n \<Longrightarrow> Q n) \<Longrightarrow> emits Q s s'"
  by (auto simp: emits_def list_all_iff)

lemma emits_log_cong: "log s2 = log s1 \<Longrightarrow> emits P s s2 = emits P s s1"
  by (simp add: emits_def)

lemma log_rekey [simp]: "log (rekey r s) = log s"
  by (simp add: rekey_def Let_def)

lemma subs_rekey [simp]: "subs (rekey r s) = subs s"
  by (simp add: rekey_def Let_def)

lemma log_onModelEvent [simp]: "log (onModelEvent ev s) = log s @ [ev]"
  by (simp add: onModelEvent_def Let_def split: notification.splits)

lemma log_funpow_onModelEvent: "log ((onModelEvent ev ^^ n) s) = log s @ replicate n ev"
  by (induction n arbitrary: s) (simp_all add: replicate_app_Cons_same)

lemma log_trigger: "log (trigger r ev s) = log s @ replicate (subs s r) ev"
  by (simp add: trigger_def log_funpow_onModelEvent)

lemma emits_trigger: "P ev \<Longrightarrow> emits P s (trigger r ev s)"
  by (simp add: emits_def log_trigger list_all_iff)

lemma log_addReference [simp]: "log (addReference m s) = log s"
  by (simp add: addReference_def Let_def)

lemma log_removeReference [simp]: "log (removeReference m s) = log s"
  by (simp add: removeReference_def)

lemma emits_addReference [simp]: "emits P s (addReference m s') = emits P s s'"
  by (simp add: emits_def)

lemma emits_merge_into: "emits is_change s (merge_into silent ex a s)"
  by (auto simp: merge_into_def Let_def emits_def log_trigger list_all_iff)

lemma emits_prepareModel: "emits is_invalid s (fst (prepareModel s e))"
  by (cases e) (auto simp: Let_def emits_def construct_def split: option.splits)

lemma fst_dedupe [simp]: "fst (dedupe i m sv) = fst sv"
  by (cases sv) (simp add: dedupe_def Let_def)

lemma emits_classify_step: "emits early s (fst (classify_step_own opts srt sa i e (s, v)))"
proof -
  have m: "\<And>ex a. emits early s (merge_into (truthy (opt_silent opts)) ex a s)"
    by (rule emits_mono[OF emits_merge_into]) (simp add: early_def)
  have p: "emits early s (fst (prepareModel s e))"
    by (rule emits_mono[OF emits_prepareModel]) (simp add: early_def)
  show ?thesis
    using m p
    by (auto simp: classify_step_own_def classify_body_def Let_def split: option.splits prod.splits if_splits)
qed

lemma emits_classify: "emits early s (fst (classify_own opts srt sa i es (s, v)))"
proof (induction es arbitrary: s v i)
  case Nil
  show ?case by simp
next
  case (Cons e es)
  obtain s1 v1 where st: "classify_step_own opts srt sa i e (s, v) = (s1, v1)"
    by (cases "classify_step_own opts srt sa i e (s, v)")
  have "emits early s s1" using emits_classify_step[of s opts srt sa i e v] st by simp
  moreover have "emits early s1 (fst (classify_own opts srt sa (Suc i) es (s1, v1)))"
    by (rule Cons.IH)
  ultimately show ?case using st by (simp add: emits_trans)
qed

lemma emits_remove_one: "emits is_remove s (fst (remove_one silent m (s, ix)))"
  by (auto simp: remove_one_def Let_def emits_def log_trigger list_all_iff)

lemma emits_remove_loop: "emits is_remove s (fst (fst (remove_loop_own silent ps (s, ix))))"
proof (induction ps arbitrary: s ix)
  case Nil
  show ?case by simp
next
  case (Cons p ps)
  show ?case
  proof (cases "get_own s p")
    case None
    then show ?thesis using Cons.IH[of s ix] by (simp add: split_beta)
  next
    case (Some m)
    obtain s1 ix1 where r: "remove_one silent m (s, ix) = (s1, ix1)"
      by (cases "remove_one silent m (s, ix)")
    have "emits is_remove s s1" using emits_remove_one[of s silent m ix] r by simp
    moreover have "emits is_remove s1 (fst (fst (remove_loop_own silent ps (s1, ix1))))"
      by (rule Cons.IH)
    ultimately show ?thesis using Some r by (simp add: emits_trans split_beta)
  qed
qed

lemma emits_remove_stale:
  assumes "remove_stale_own silent mm (s, ix) = Inr (s', ix')"
  shows "emits is_remove s s'"
proof (cases "filter (\<lambda>m. cid_key m \<notin> mm) (take (nat (len s)) (models s)) = []")
  case True
  with assms show ?thesis by (auto simp: remove_stale_own_def Let_def split: if_splits)
next
  case False
  define ps where "ps = map (\<lambda>m. PEntry (Rec m)) (filter (\<lambda>m. cid_key m \<notin> mm) (take (nat (len s)) (models s)))"
  from assms False have "fst (remove_loop_own silent ps (s, ix)) = (s', ix')"
    by (auto simp: remove_stale_own_def Let_def ps_def split: if_splits)
  then have "s' = fst (fst (remove_loop_own silent ps (s, ix)))" by simp
  then show ?thesis by (simp add: emits_remove_loop)
qed

lemma emits_trigger_adds: "emits is_add s (trigger_adds at ix ms s)"
proof (induction ms arbitrary: s at)
  case Nil
  show ?case by simp
next
  case (Cons m ms)
  have "emits is_add s (trigger m (N_add m (case at of Some a \<Rightarrow> Some a | None \<Rightarrow> ix)) s)"
    by (rule emits_trigger) simp
  then show ?case using Cons.IH by (auto intro: emits_trans)
qed

lemma log_sort_c_silent:
  "sort_c s (no_options\<lparr>opt_silent := Some True\<rparr>) = Inr s' \<Longrightarrow> log s' = log s"
  by (auto simp: sort_c_def Let_def truthy_def split: if_splits)

lemma log_set_splice [simp]: "log (set_splice at v s) = log s"
  by (simp add: set_splice_def)

lemma log_set_events:
  "\<exists>as ss. log (set_events opts at ix v srt s) = log s @ as @ ss \<and> list_all is_add as \<and>
     (ss = [] \<or> ss = [N_sort])"
proof -
  obtain as where as: "log (trigger_adds at ix (v_toAdd v) s) = log s @ as" "list_all is_add as"
    using emits_trigger_adds[of s at ix "v_toAdd v"] by (auto simp: emits_def)
  show ?thesis
  proof (cases "truthy (opt_silent opts)")
    case True
    then show ?thesis by (intro exI[of _ "[]"]) (simp add: set_events_def)
  next
    case False
    show ?thesis
    proof (cases "srt \<or> v_orderChanged v")
      case True
      with False as show ?thesis
        by (intro exI[of _ as] exI[of _ "[N_sort]"]) (simp add: set_events_def Let_def)
    next
      case False
      with \<open>\<not> truthy (opt_silent opts)\<close> as show ?thesis
        by (intro exI[of _ as] exI[of _ "[]"]) (simp add: set_events_def Let_def)
    qed
  qed
qed

lemma log_set_events_from:
  "log s2 = log s \<Longrightarrow>
   \<exists>as ss. log (set_events opts at ix v srt s2) = log s @ as @ ss \<and> list_all is_add as \<and>
     (ss = [] \<or> ss = [N_sort])"
  using log_set_events[of opts at ix v srt s2] by simp

lemma log_set_finish:
  assumes "set_finish opts srtb at v (s, ix) = Inr s'"
  shows "\<exists>as ss. log s' = log s @ as @ ss \<and> list_all is_add as \<and> (ss = [] \<or> ss = [N_sort])"
  using assms
  by (auto simp: set_finish_def Let_def split: sum.splits if_splits
           dest!: log_sort_c_silent intro!: log_set_events_from)

subsection \<open>The order of the notifications of one call\<close>

lemma set_own_notification_order:
  assumes "set_c_own s inp opts = Inr (s', out)"
  shows "\<exists>cs rs as ss. log s' = log s @ cs @ rs @ as @ ss \<and>
           list_all early cs \<and> list_all is_remove rs \<and> list_all is_add as \<and>
           (ss = [] \<or> ss = [N_sort])"
proof -
  define o2 where "o2 = setOptions opts"
  obtain s1 v where cl:
    "classify_own o2 (sortable s o2) (sortAttr s) 0 (entries_of inp) (s, init_vars s o2) = (s1, v)"
    by (cases "classify_own o2 (sortable s o2) (sortAttr s) 0 (entries_of inp) (s, init_vars s o2)")
  define r where "r = (if truthy (opt_remove o2)
               then remove_stale_own (truthy (opt_silent o2)) (v_modelMap v) (s1, opt_index o2)
               else Inr (s1, opt_index o2))"
  from assms obtain s2 ix2 where r: "r = Inr (s2, ix2)"
    and f: "set_finish o2 (sortable s o2) (position s o2) v (s2, ix2) = Inr s'"
    by (auto simp: set_c_own_def Let_def o2_def[symmetric] cl r_def[symmetric] split: sum.splits)
  have "emits early s s1"
    using emits_classify[of s o2 "sortable s o2" "sortAttr s" 0 "entries_of inp" "init_vars s o2"] cl
    by simp
  then obtain cs where cs: "log s1 = log s @ cs" "list_all early cs" by (auto simp: emits_def)
  have "emits is_remove s1 s2"
    using r by (auto simp: r_def split: if_splits dest: emits_remove_stale)
  then obtain rs where rs: "log s2 = log s1 @ rs" "list_all is_remove rs" by (auto simp: emits_def)
  from log_set_finish[OF f] obtain as ss where
    as: "log s' = log s2 @ as @ ss" "list_all is_add as" "ss = [] \<or> ss = [N_sort]" by blast
  show ?thesis
    using cs rs as by (intro exI[of _ cs] exI[of _ rs] exI[of _ as] exI[of _ ss]) simp
qed

subsection \<open>Frame lemmas\<close>

lemma id_attr_update [simp]:
  "id_attr (s\<lparr>heap := h\<rparr>) = id_attr s"
  "id_attr (s\<lparr>next_cid := n\<rparr>) = id_attr s"
  "id_attr (s\<lparr>subs := sb\<rparr>) = id_attr s"
  "id_attr (s\<lparr>models := ms\<rparr>) = id_attr s"
  "id_attr (s\<lparr>len := l\<rparr>) = id_attr s"
  "id_attr (s\<lparr>byId := b\<rparr>) = id_attr s"
  "id_attr (s\<lparr>log := lg\<rparr>) = id_attr s"
  "id_attr (s\<lparr>emitted := em\<rparr>) = id_attr s"
  by (simp_all add: id_attr_def)

lemma modelId_update [simp]:
  "modelId (s\<lparr>heap := h\<rparr>) = modelId s"
  "modelId (s\<lparr>next_cid := n\<rparr>) = modelId s"
  "modelId (s\<lparr>subs := sb\<rparr>) = modelId s"
  "modelId (s\<lparr>models := ms\<rparr>) = modelId s"
  "modelId (s\<lparr>len := l\<rparr>) = modelId s"
  "modelId (s\<lparr>byId := b\<rparr>) = modelId s"
  "modelId (s\<lparr>log := lg\<rparr>) = modelId s"
  "modelId (s\<lparr>emitted := em\<rparr>) = modelId s"
  by (simp_all add: modelId_def fun_eq_iff)

lemma model_id_update [simp]:
  "model_id (s\<lparr>next_cid := n\<rparr>) = model_id s"
  "model_id (s\<lparr>subs := sb\<rparr>) = model_id s"
  "model_id (s\<lparr>models := ms\<rparr>) = model_id s"
  "model_id (s\<lparr>len := l\<rparr>) = model_id s"
  "model_id (s\<lparr>byId := b\<rparr>) = model_id s"
  "model_id (s\<lparr>log := lg\<rparr>) = model_id s"
  "model_id (s\<lparr>emitted := em\<rparr>) = model_id s"
  by (simp_all add: model_id_def fun_eq_iff)

lemma has_comparator_update [simp]:
  "has_comparator (s\<lparr>heap := h\<rparr>) = has_comparator s"
  "has_comparator (s\<lparr>next_cid := n\<rparr>) = has_comparator s"
  "has_comparator (s\<lparr>subs := sb\<rparr>) = has_comparator s"
  "has_comparator (s\<lparr>models := ms\<rparr>) = has_comparator s"
  "has_comparator (s\<lparr>len := l\<rparr>) = has_comparator s"
  "has_comparator (s\<lparr>byId := b\<rparr>) = has_comparator s"
  "has_comparator (s\<lparr>log := lg\<rparr>) = has_comparator s"
  "has_comparator (s\<lparr>emitted := em\<rparr>) = has_comparator s"
  by (simp_all add: has_comparator_def)

text \<open>A notification other than "change" only reaches the log.\<close>

lemma onModelEvent_plain:
  "\<not> is_change ev \<Longrightarrow> onModelEvent ev s = s\<lparr>log := log s @ [ev]\<rparr>"
  by (cases ev) (simp_all add: onModelEvent_def)

lemma funpow_onModelEvent_plain:
  "\<not> is_change ev \<Longrightarrow> (onModelEvent ev ^^ n) s = s\<lparr>log := log s @ replicate n ev\<rparr>"
proof (induction n arbitrary: s)
  case 0
  show ?case by simp
next
  case (Suc n)
  then show ?case by (simp add: onModelEvent_plain funpow_swap1 replicate_app_Cons_same)
qed

lemma trigger_plain:
  "\<not> is_change ev \<Longrightarrow>
   trigger r ev s = s\<lparr>emitted := emitted s @ [ev], log := log s @ replicate (subs s r) ev\<rparr>"
  by (simp add: trigger_def funpow_onModelEvent_plain)

lemma trigger_adds_fields:
  "heap (trigger_adds at ix ms s) = heap s \<and> next_cid (trigger_adds at ix ms s) = next_cid s \<and>
   subs (trigger_adds at ix ms s) = subs s \<and> models (trigger_adds at ix ms s) = models s \<and>
   len (trigger_adds at ix ms s) = len s \<and> byId (trigger_adds at ix ms s) = byId s \<and>
   comparator (trigger_adds at ix ms s) = comparator s \<and>
   idAttribute (trigger_adds at ix ms s) = idAttribute s \<and>
   validate (trigger_adds at ix ms s) = validate s"
  by (induction ms arbitrary: s at) (simp_all add: trigger_plain)

lemma set_events_fields:
  "heap (set_events opts at ix v srt s) = heap s \<and>
   next_cid (set_events opts at ix v srt s) = next_cid s \<and>
   subs (set_events opts at ix v srt s) = subs s \<and>
   models (set_events opts at ix v srt s) = models s \<and>
   len (set_events opts at ix v srt s) = len s \<and>
   byId (set_events opts at ix v srt s) = byId s \<and>
   comparator (set_events opts at ix v srt s) = comparator s \<and>
   idAttribute (set_events opts at ix v srt s) = idAttribute s \<and>
   validate (set_events opts at ix v srt s) = validate s"
  by (simp add: set_events_def Let_def trigger_adds_fields)

lemma sort_c_fields:
  "sort_c s opts = Inr s' \<Longrightarrow>
   heap s' = heap s \<and> next_cid s' = next_cid s \<and> subs s' = subs s \<and>
   mset (models s') = mset (models s) \<and> len s' = len s \<and> byId s' = byId s \<and>
   comparator s' = comparator s \<and> idAttribute s' = idAttribute s \<and> validate s' = validate s"
  by (auto simp: sort_c_def Let_def split: if_splits option.splits comparator.splits)

lemma sort_c_total: "has_comparator s \<Longrightarrow> \<exists>s'. sort_c s opts = Inr s'"
  by (simp add: sort_c_def Let_def)

lemma mset_splice_ins [simp]: "mset (splice_ins xs i x) = add_mset x (mset xs)"
proof -
  have "mset (take (splice_start xs i) xs) + mset (drop (splice_start xs i) xs) = mset xs"
    by (simp only: mset_append[symmetric] append_take_drop_id)
  then show ?thesis by (simp add: splice_ins_def)
qed

lemma mset_splice_all [simp]: "mset (splice_all ms a xs) = mset ms + mset xs"
  by (induction xs arbitrary: ms a) simp_all

lemma set_finish_fields:
  assumes "set_finish opts srtb at v (s, ix) = Inr s'"
  shows "heap s' = heap s \<and> next_cid s' = next_cid s \<and> subs s' = subs s \<and>
   mset (models s') = spliced at v s \<and>
   len s' = (if v_toAdd v \<noteq> [] \<or> v_orderChanged v then len s + int (length (v_toAdd v)) else len s) \<and>
   byId s' = byId s \<and>
   comparator s' = comparator s \<and> idAttribute s' = idAttribute s \<and> validate s' = validate s"
  using assms
  by (auto simp: set_finish_def Let_def set_events_fields set_splice_def spliced_def
           split: sum.splits if_splits option.splits dest!: sort_c_fields)

lemma set_finish_total:
  assumes "v_sort v \<or> srtb \<longrightarrow> has_comparator s"
  shows "\<exists>s'. set_finish opts srtb at v (s, ix) = Inr s'"
proof -
  have "\<And>s1. has_comparator s1 \<Longrightarrow> \<exists>s2. sort_c s1 (no_options\<lparr>opt_silent := Some True\<rparr>) = Inr s2"
    by (rule sort_c_total)
  moreover have "has_comparator (set_splice at v s) = has_comparator s"
    by (simp add: set_splice_def)
  ultimately show ?thesis using assms
    by (fastforce simp: set_finish_def Let_def split: sum.splits)
qed

subsection \<open>Adding one bag that resolves to no record\<close>

lemma attr_get_cid: "map_of a ''cid'' = None \<Longrightarrow> attr_get a ''cid'' = JUndefined"
  by (simp add: attr_get_def proto_keys_def)

lemma get_bag_without_identity:
  assumes "nullish (modelId s a)" and "map_of a ''cid'' = None" and "probe_free s"
  shows "get_own s (PEntry (Bag a)) = None"
proof -
  from assms(1) have "to_key (modelId s a) = ''undefined'' \<or> to_key (modelId s a) = ''null''"
    by (cases "modelId s a") auto
  with assms show ?thesis by (auto simp: orelse_def attr_get_cid probe_free_def)
qed

lemma indexed_probe_free: "indexed s rs \<Longrightarrow> probe_free s"
proof -
  assume c: "indexed s rs"
  have "byId s k = None" if "reserved_key k" for k
  proof (cases "byId s k")
    case None
    then show ?thesis .
  next
    case (Some r)
    with c have r: "r \<in> set rs"
      and k: "k = cid_key r \<or> (\<not> nullish (model_id s r) \<and> k = to_key (model_id s r))"
      by (auto simp: indexed_def)
    from c r have "nullish (model_id s r) \<or> plain_key (to_key (model_id s r))"
      by (auto simp: indexed_def)
    with k that show ?thesis by (auto simp: plain_key_def)
  qed
  then show ?thesis by (simp add: probe_free_def reserved_key_def)
qed

lemma consistent_probe_free: "consistent s \<Longrightarrow> probe_free s"
  by (auto simp: consistent_def dest: indexed_probe_free)

lemma consistent_allocated: "consistent s \<Longrightarrow> allocated s"
  by (simp add: consistent_def indexed_def allocated_def)


subsection \<open>Removing a member of a consistent collection\<close>

lemma index_of_bounds: "- 1 \<le> index_of xs r \<and> index_of xs r < int (length xs)"
  by (induction xs) (auto simp: Let_def)

lemma index_of_member: "r \<in> set xs \<Longrightarrow> 0 \<le> index_of xs r"
  by (induction xs) (auto simp: Let_def)

lemma take_drop_index_of:
  "r \<in> set xs \<Longrightarrow>
   take (nat (index_of xs r)) xs @ drop (Suc (nat (index_of xs r))) xs = remove1 r xs"
proof (induction xs)
  case Nil
  then show ?case by simp
next
  case (Cons x xs)
  show ?case
  proof (cases "x = r")
    case True
    then show ?thesis by simp
  next
    case False
    with Cons.prems have r: "r \<in> set xs" by simp
    from index_of_member[OF r] have "nat (index_of xs r + 1) = Suc (nat (index_of xs r))"
      by simp
    with False Cons.IH[OF r] index_of_member[OF r] show ?thesis by (simp add: Let_def)
  qed
qed

lemma splice_del_index_of: "r \<in> set xs \<Longrightarrow> splice_del xs (index_of xs r) = remove1 r xs"
proof -
  assume r: "r \<in> set xs"
  have "splice_start xs (index_of xs r) = nat (index_of xs r)"
    using index_of_member[OF r] index_of_bounds[of xs r] by (simp add: splice_start_def Let_def)
  then show ?thesis using take_drop_index_of[OF r] by (simp add: splice_del_def)
qed

lemma model_id_removeReference [simp]: "model_id (removeReference m s) = model_id s"
  by (auto simp: model_id_def removeReference_def fun_eq_iff)

text \<open>The state after the loop body of \<^verbatim>\<open>remove\<close>.\<close>

lemma remove_one_fields:
  shows "len (fst (remove_one silent m (s, ix))) = len s - 1"
    and "byId (fst (remove_one silent m (s, ix))) =
           (\<lambda>k. if k = cid_key m \<or> (\<not> nullish (model_id s m) \<and> k = to_key (model_id s m))
                then None else byId s k)"
    and "model_id (fst (remove_one silent m (s, ix))) = model_id s"
    and "subs (fst (remove_one silent m (s, ix))) = (subs s)(m := 0)"
    and "next_cid (fst (remove_one silent m (s, ix))) = next_cid s"
    and "idAttribute (fst (remove_one silent m (s, ix))) = idAttribute s"
    and "comparator (fst (remove_one silent m (s, ix))) = comparator s"
    and "validate (fst (remove_one silent m (s, ix))) = validate s"
    and "attributes (heap (fst (remove_one silent m (s, ix))) r) = attributes (heap s r)"
proof -
  show "len (fst (remove_one silent m (s, ix))) = len s - 1"
    by (simp add: remove_one_def Let_def trigger_plain removeReference_def)
  show "byId (fst (remove_one silent m (s, ix))) =
           (\<lambda>k. if k = cid_key m \<or> (\<not> nullish (model_id s m) \<and> k = to_key (model_id s m))
                then None else byId s k)"
    by (auto simp: remove_one_def Let_def trigger_plain removeReference_def fun_eq_iff)
  show "model_id (fst (remove_one silent m (s, ix))) = model_id s"
    by (simp add: remove_one_def Let_def trigger_plain)
  show "subs (fst (remove_one silent m (s, ix))) = (subs s)(m := 0)"
    by (simp add: remove_one_def Let_def trigger_plain removeReference_def)
  show "next_cid (fst (remove_one silent m (s, ix))) = next_cid s"
    by (simp add: remove_one_def Let_def trigger_plain removeReference_def)
  show "idAttribute (fst (remove_one silent m (s, ix))) = idAttribute s"
    by (simp add: remove_one_def Let_def trigger_plain removeReference_def)
  show "comparator (fst (remove_one silent m (s, ix))) = comparator s"
    by (simp add: remove_one_def Let_def trigger_plain removeReference_def)
  show "validate (fst (remove_one silent m (s, ix))) = validate s"
    by (simp add: remove_one_def Let_def trigger_plain removeReference_def)
  show "attributes (heap (fst (remove_one silent m (s, ix))) r) = attributes (heap s r)"
    by (simp add: remove_one_def Let_def trigger_plain removeReference_def)
qed

lemma models_remove_one:
  "m \<in> set (models s) \<Longrightarrow> models (fst (remove_one silent m (s, ix))) = remove1 m (models s)"
  by (simp add: remove_one_def Let_def trigger_plain removeReference_def splice_del_index_of)

lemma log_remove_one:
  "subs s m = Suc 0 \<Longrightarrow>
   log (fst (remove_one silent m (s, ix))) =
     log s @ (if silent then [] else [N_remove m (Some (index_of (models s) m))])"
  by (simp add: remove_one_def Let_def trigger_plain removeReference_def)

lemma snd_remove_one:
  "snd (remove_one silent m (s, ix)) = (if silent then ix else Some (index_of (models s) m))"
  by (simp add: remove_one_def Let_def)

lemma indexed_keys_apart:
  assumes c: "indexed s rs" and r: "r \<in> set rs" and m: "m \<in> set rs"
    and ne: "r \<noteq> m"
  shows "cid_key r \<noteq> to_key (model_id s m) \<or> nullish (model_id s m)"
    and "\<not> nullish (model_id s r) \<Longrightarrow> \<not> nullish (model_id s m) \<Longrightarrow>
         to_key (model_id s r) \<noteq> to_key (model_id s m)"
    and "\<not> nullish (model_id s r) \<Longrightarrow> to_key (model_id s r) \<noteq> cid_key m"
proof -
  from c m have pm: "nullish (model_id s m) \<or>
      (plain_key (to_key (model_id s m)) \<and> byId s (to_key (model_id s m)) = Some m)"
    by (simp add: indexed_def)
  from c r have pr: "nullish (model_id s r) \<or>
      (plain_key (to_key (model_id s r)) \<and> byId s (to_key (model_id s r)) = Some r)"
    by (simp add: indexed_def)
  from pm show "cid_key r \<noteq> to_key (model_id s m) \<or> nullish (model_id s m)"
    by (metis cid_key_not_plain)
  show "\<not> nullish (model_id s r) \<Longrightarrow> \<not> nullish (model_id s m) \<Longrightarrow>
         to_key (model_id s r) \<noteq> to_key (model_id s m)"
    using pm pr ne by auto
  show "\<not> nullish (model_id s r) \<Longrightarrow> to_key (model_id s r) \<noteq> cid_key m"
    using pr by (metis cid_key_not_plain)
qed

lemma indexed_remove_one:
  assumes c: "indexed s rs" and m: "m \<in> set rs"
  shows "indexed (fst (remove_one silent m (s, ix))) (remove1 m rs)"
proof -
  define s' where "s' = fst (remove_one silent m (s, ix))"
  note f = remove_one_fields[of silent m s ix, folded s'_def]
  from c have d: "distinct rs" by (simp add: indexed_def)
  have mem: "set (remove1 m rs) = set rs - {m}"
    using d by simp
  have 2: "distinct (remove1 m rs)" using d by simp
  have 3: "r < next_cid s' \<and> subs s' r = Suc 0 \<and> byId s' (cid_key r) = Some r \<and>
          (nullish (model_id s' r) \<or>
           (plain_key (to_key (model_id s' r)) \<and> byId s' (to_key (model_id s' r)) = Some r))"
    if "r \<in> set (remove1 m rs)" for r
  proof -
    from that mem have r: "r \<in> set rs" and ne: "r \<noteq> m" by auto
    from c r have a: "r < next_cid s" "subs s r = Suc 0" "byId s (cid_key r) = Some r"
      "nullish (model_id s r) \<or>
           (plain_key (to_key (model_id s r)) \<and> byId s (to_key (model_id s r)) = Some r)"
      by (simp_all add: indexed_def)
    note k = indexed_keys_apart[OF c r m ne]
    show ?thesis
      using a ne k by (auto simp: f)
  qed
  have 4: "r \<in> set (remove1 m rs) \<and>
          (k = cid_key r \<or> (\<not> nullish (model_id s' r) \<and> k = to_key (model_id s' r)))"
    if "byId s' k = Some r" for k r
  proof -
    from that have b: "byId s k = Some r"
      and nk: "\<not> (k = cid_key m \<or> (\<not> nullish (model_id s m) \<and> k = to_key (model_id s m)))"
      by (auto simp: f split: if_splits)
    from c b have r: "r \<in> set rs"
      and kk: "k = cid_key r \<or> (\<not> nullish (model_id s r) \<and> k = to_key (model_id s r))"
      by (auto simp: indexed_def)
    from nk kk have "r \<noteq> m" by auto
    with r kk show ?thesis by (simp add: mem f)
  qed
  show ?thesis
    unfolding s'_def[symmetric] indexed_def using 2 3 4 by blast
qed

lemma consistent_remove_one:
  assumes c: "consistent s" and m: "m \<in> set (models s)"
  shows "consistent (fst (remove_one silent m (s, ix)))"
proof -
  from c have l: "len s = int (length (models s))" and i: "indexed s (models s)"
    by (simp_all add: consistent_def)
  have "len (fst (remove_one silent m (s, ix))) = int (length (remove1 m (models s)))"
    using l m by (simp add: remove_one_fields length_remove1) (cases "models s", auto)
  with indexed_remove_one[OF i m, of silent ix] show ?thesis
    by (simp add: consistent_def models_remove_one[OF m])
qed

lemma get_member: "indexed s rs \<Longrightarrow> get_own s p = Some r \<Longrightarrow> r \<in> set rs"
proof -
  assume c: "indexed s rs" and g: "get_own s p = Some r"
  have k: "\<And>k. byId s k = Some r \<Longrightarrow> r \<in> set rs"
    using c by (auto simp: indexed_def)
  show ?thesis
  proof (cases p)
    case (PKey v)
    with g k show ?thesis by (auto simp: orelse_def split: option.splits if_splits)
  next
    case (PEntry e)
    with g k show ?thesis by (cases e) (auto simp: orelse_def split: option.splits if_splits)
  qed
qed

lemma get_rec_indexed:
  assumes c: "indexed s rs" and r: "r \<in> set rs"
  shows "get_own s (PEntry (Rec r)) = Some r"
proof -
  from indexed_probe_free[OF c] have pf: "byId s object_key = None"
    "byId s ''undefined'' = None" "byId s ''null'' = None"
    by (simp_all add: probe_free_def)
  from c r have a: "byId s (cid_key r) = Some r"
    "nullish (model_id s r) \<or> byId s (to_key (model_id s r)) = Some r"
    by (auto simp: indexed_def)
  show ?thesis
  proof (cases "nullish (model_id s r)")
    case True
    then have "to_key (model_id s r) = ''undefined'' \<or> to_key (model_id s r) = ''null''"
      by (cases "model_id s r") auto
    with pf a show ?thesis by (auto simp: orelse_def)
  next
    case False
    with pf a show ?thesis by (simp add: orelse_def)
  qed
qed

lemma byId_remove_one:
  assumes c: "indexed s rs" and m: "m \<in> set rs"
  shows "byId (fst (remove_one silent m (s, ix))) =
           (\<lambda>k. if byId s k = Some m then None else byId s k)"
proof -
  from c m have a: "byId s (cid_key m) = Some m"
    "nullish (model_id s m) \<or> byId s (to_key (model_id s m)) = Some m"
    by (auto simp: indexed_def)
  from c have b: "\<And>k. byId s k = Some m \<Longrightarrow>
      k = cid_key m \<or> (\<not> nullish (model_id s m) \<and> k = to_key (model_id s m))"
    by (auto simp: indexed_def)
  show ?thesis
    unfolding remove_one_fields(2) using a b by (auto simp: fun_eq_iff)
qed

lemma modelId_remove_one [simp]: "modelId (fst (remove_one silent m (s, ix))) = modelId s"
  by (simp add: remove_one_def Let_def trigger_plain removeReference_def modelId_def id_attr_def
        fun_eq_iff)

lemma get_remove_one_other:
  assumes c: "indexed s rs" and m: "m \<in> set rs"
    and g: "get_own s p = Some r" and ne: "r \<noteq> m"
  shows "get_own (fst (remove_one silent m (s, ix))) p = Some r"
proof -
  note b = byId_remove_one[OF c m, of silent ix]
  note i = remove_one_fields(3)[of silent m s ix]
  show ?thesis
  proof (cases p)
    case (PKey v)
    with g ne show ?thesis by (auto simp: b orelse_def split: option.splits if_splits)
  next
    case (PEntry e)
    with g ne show ?thesis
      by (cases e) (auto simp: b i orelse_def split: option.splits if_splits)
  qed
qed

lemma remove_loop_consistent:
  assumes "consistent s" and "remove_loop_own silent ps (s, ix) = ((s', ix'), rs)"
  shows "consistent s' \<and> length rs = length ps \<and>
         models s' = filter (\<lambda>r. Some r \<notin> set rs) (models s) \<and>
         (\<forall>p \<in> set ps. \<forall>r. get_own s p = Some r \<longrightarrow> r \<notin> set (models s')) \<and>
         (\<exists>ns. log s' = log s @ ns \<and> list_all is_remove ns \<and>
               map subject ns = (if silent then [] else filter (\<lambda>x. x \<noteq> None) rs)) \<and>
         (list_all (\<lambda>x. x = None) rs \<longrightarrow> s' = s) \<and>
         (ps \<noteq> [] \<longrightarrow> hd rs = get_own s (hd ps))"
  using assms
proof (induction ps arbitrary: s ix s' ix' rs)
  case Nil
  then show ?case by simp
next
  case (Cons p ps)
  show ?case
  proof (cases "get_own s p")
    case None
    obtain rs' where rl: "remove_loop_own silent ps (s, ix) = ((s', ix'), rs')" and rs: "rs = None # rs'"
      using Cons.prems(2) None by (auto split: prod.splits)
    from Cons.IH[OF Cons.prems(1) rl] None rs show ?thesis by auto
  next
    case (Some m)
    define s1 where "s1 = fst (remove_one silent m (s, ix))"
    define ix1 where "ix1 = snd (remove_one silent m (s, ix))"
    from Cons.prems(1) have ci: "indexed s (models s)" by (simp add: consistent_def)
    from get_member[OF ci Some] have m: "m \<in> set (models s)" .
    obtain rs' where rl: "remove_loop_own silent ps (s1, ix1) = ((s', ix'), rs')" and rs: "rs = Some m # rs'"
      using Cons.prems(2) Some by (auto simp: s1_def ix1_def split: prod.splits)
    have c1: "consistent s1" unfolding s1_def by (rule consistent_remove_one[OF Cons.prems(1) m])
    from ci m have sb: "subs s m = Suc 0" by (simp add: indexed_def)
    note f = models_remove_one[OF m, of silent ix, folded s1_def]
      log_remove_one[OF sb, of silent ix, folded s1_def]
    from ci have d: "distinct (models s)" by (simp add: indexed_def)
    note ih = Cons.IH[OF c1 rl]
    have mo: "models s' = filter (\<lambda>r. Some r \<notin> set rs) (models s)"
    proof -
      have "models s' = filter (\<lambda>r. Some r \<notin> set rs') (remove1 m (models s))"
        using ih f(1) by simp
      also have "remove1 m (models s) = filter (\<lambda>r. r \<noteq> m) (models s)"
        using d by (simp add: distinct_remove1_removeAll removeAll_filter_not_eq) metis
      finally show ?thesis using rs by (auto intro: filter_cong)
    qed
    have gone: "r \<notin> set (models s')" if "q \<in> set (p # ps)" and "get_own s q = Some r" for q r
    proof (cases "r = m")
      case True
      then show ?thesis using mo rs by simp
    next
      case False
      with that Some have q: "q \<in> set ps" by auto
      from get_remove_one_other[OF ci m that(2) False, of silent ix]
      have "get_own s1 q = Some r" by (simp add: s1_def)
      with ih q show ?thesis by blast
    qed
    from ih obtain ns where ns: "log s' = log s1 @ ns" "list_all is_remove ns"
      "map subject ns = (if silent then [] else filter (\<lambda>x. x \<noteq> None) rs')" by blast
    have lg: "\<exists>ns. log s' = log s @ ns \<and> list_all is_remove ns \<and>
               map subject ns = (if silent then [] else filter (\<lambda>x. x \<noteq> None) rs)"
      using ns f(2) rs
      by (intro exI[of _ "(if silent then [] else [N_remove m (Some (index_of (models s) m))]) @ ns"])
         simp
    show ?thesis
      using ih mo gone lg rs Some by auto
  qed
qed

subsection \<open>Setting a collection to copies of its own records\<close>







subsection \<open>Setting a collection to its own array\<close>


subsection \<open>The removal pass of set\<close>

lemma remove_loop_members:
  assumes "indexed s (models s @ T)" and "distinct ts" and "set ts \<subseteq> set (models s)"
  shows "\<exists>s' ix' rs.
           remove_loop_own silent (map (\<lambda>m. PEntry (Rec m)) ts) (s, ix) = ((s', ix'), rs) \<and>
           indexed s' (models s' @ T) \<and>
           models s' = filter (\<lambda>r. r \<notin> set ts) (models s) \<and>
           len s' = len s - int (length ts) \<and>
           model_id s' = model_id s \<and> next_cid s' = next_cid s \<and>
           comparator s' = comparator s \<and> idAttribute s' = idAttribute s \<and>
           validate s' = validate s \<and>
           (\<forall>r. attributes (heap s' r) = attributes (heap s r))"
  using assms
proof (induction ts arbitrary: s ix)
  case Nil
  then show ?case by simp
next
  case (Cons t ts)
  from Cons.prems have t: "t \<in> set (models s)" and tU: "t \<in> set (models s @ T)" by auto
  have g: "get_own s (PEntry (Rec t)) = Some t"
    by (rule get_rec_indexed[OF Cons.prems(1) tU])
  define s1 where "s1 = fst (remove_one silent t (s, ix))"
  define ix1 where "ix1 = snd (remove_one silent t (s, ix))"
  have r1: "remove_one silent t (s, ix) = (s1, ix1)" by (simp add: s1_def ix1_def)
  note f = remove_one_fields[of silent t s ix, folded s1_def]
  have m1: "models s1 = remove1 t (models s)"
    unfolding s1_def by (rule models_remove_one[OF t])
  from Cons.prems(1) have d: "distinct (models s)" by (simp add: indexed_def)
  have i1: "indexed s1 (models s1 @ T)"
    using indexed_remove_one[OF Cons.prems(1) tU, of silent ix] t
    by (simp add: s1_def[symmetric] m1 remove1_append)
  have sub1: "set ts \<subseteq> set (models s1)"
    using Cons.prems(2,3) d by (auto simp: m1)
  from Cons.prems(2) have d1: "distinct ts" by simp
  from Cons.IH[OF i1 d1 sub1, of ix1] obtain s' ix' rs where
    rl: "remove_loop_own silent (map (\<lambda>m. PEntry (Rec m)) ts) (s1, ix1) = ((s', ix'), rs)"
    and ih: "indexed s' (models s' @ T)"
      "models s' = filter (\<lambda>r. r \<notin> set ts) (models s1)"
      "len s' = len s1 - int (length ts)"
      "model_id s' = model_id s1" "next_cid s' = next_cid s1"
      "comparator s' = comparator s1" "idAttribute s' = idAttribute s1"
      "validate s' = validate s1"
      "\<forall>r. attributes (heap s' r) = attributes (heap s1 r)"
    by blast
  have "remove1 t (models s) = filter (\<lambda>r. r \<noteq> t) (models s)"
    using d by (simp add: distinct_remove1_removeAll removeAll_filter_not_eq) metis
  then have mo: "models s' = filter (\<lambda>r. r \<notin> set (t # ts)) (models s)"
    using ih(2) m1 by (auto intro: filter_cong)
  have "remove_loop_own silent (map (\<lambda>m. PEntry (Rec m)) (t # ts)) (s, ix) = ((s', ix'), Some t # rs)"
    using g r1 rl by simp
  with ih mo f show ?case by simp
qed

lemma remove_stale_indexed:
  assumes i: "indexed s (models s @ T)" and l: "len s = int (length (models s))"
  shows "\<exists>s' ix'.
           remove_stale_own silent mm (s, ix) = Inr (s', ix') \<and>
           indexed s' (models s' @ T) \<and>
           models s' = filter (\<lambda>m. cid_key m \<in> mm) (models s) \<and>
           len s' = int (length (models s')) \<and>
           model_id s' = model_id s \<and> next_cid s' = next_cid s \<and>
           comparator s' = comparator s \<and> idAttribute s' = idAttribute s \<and>
           validate s' = validate s \<and>
           (\<forall>r. attributes (heap s' r) = attributes (heap s r))"
proof -
  define ts where "ts = filter (\<lambda>m. cid_key m \<notin> mm) (models s)"
  have tk: "take (nat (len s)) (models s) = models s" using l by simp
  from i have d: "distinct (models s)" by (simp add: indexed_def)
  have len_eq: "int (length (models s)) - int (length ts)
                  = int (length (filter (\<lambda>m. cid_key m \<in> mm) (models s)))"
    using sum_length_filter_compl[of "\<lambda>m. cid_key m \<in> mm" "models s"] by (simp add: ts_def)
  show ?thesis
  proof (cases "ts = []")
    case True
    then have "filter (\<lambda>m. cid_key m \<in> mm) (models s) = models s"
      by (auto simp: ts_def filter_empty_conv filter_id_conv)
    with True i l show ?thesis by (simp add: remove_stale_own_def tk ts_def[symmetric])
  next
    case False
    have "distinct ts" "set ts \<subseteq> set (models s)" using d by (auto simp: ts_def)
    from remove_loop_members[OF i this, of silent ix] obtain s' ix' rs where
      rl: "remove_loop_own silent (map (\<lambda>m. PEntry (Rec m)) ts) (s, ix) = ((s', ix'), rs)"
      and ih: "indexed s' (models s' @ T)"
        "models s' = filter (\<lambda>r. r \<notin> set ts) (models s)"
        "len s' = len s - int (length ts)"
        "model_id s' = model_id s" "next_cid s' = next_cid s"
        "comparator s' = comparator s" "idAttribute s' = idAttribute s"
        "validate s' = validate s"
        "\<forall>r. attributes (heap s' r) = attributes (heap s r)"
      by blast
    have mo: "models s' = filter (\<lambda>m. cid_key m \<in> mm) (models s)"
      unfolding ih(2) by (rule filter_cong) (auto simp: ts_def)
    have "remove_stale_own silent mm (s, ix) = Inr (s', ix')"
      using False l rl by (simp add: remove_stale_own_def tk ts_def[symmetric])
    with ih mo len_eq l show ?thesis by simp
  qed
qed

subsection \<open>Merging a bag that keeps the key of the record\<close>

lemma attr_get_merge [simp]:
  "attr_get (AList.merge old a) k = (case map_of a k of None \<Rightarrow> attr_get old k | Some x \<Rightarrow> x)"
  by (simp add: attr_get_def merge_conv' map_add_def split: option.splits)

lemma rekey_log_update: "rekey r (s\<lparr>log := lg\<rparr>) = (rekey r s)\<lparr>log := lg\<rparr>"
  by (simp add: rekey_def Let_def)

lemma rekey_emitted_update: "rekey r (s\<lparr>emitted := em\<rparr>) = (rekey r s)\<lparr>emitted := em\<rparr>"
  by (simp add: rekey_def Let_def)

lemma merge_into_keep_key:
  assumes b: "byId s (to_key (modelId s a)) = Some r"
    and k: "to_key (model_id s r) = to_key (modelId s a)"
    and na: "\<not> nullish (modelId s a)" and nr: "\<not> nullish (model_id s r)"
  shows "byId (merge_into silent r a s) = byId s"
    and "to_key (model_id (merge_into silent r a s) r) = to_key (modelId s a)"
    and "t \<noteq> r \<Longrightarrow> heap (merge_into silent r a s) t = heap s t"
    and "models (merge_into silent r a s) = models s"
    and "len (merge_into silent r a s) = len s"
    and "subs (merge_into silent r a s) = subs s"
    and "next_cid (merge_into silent r a s) = next_cid s"
    and "idAttribute (merge_into silent r a s) = idAttribute s"
    and "comparator (merge_into silent r a s) = comparator s"
    and "validate (merge_into silent r a s) = validate s"
proof -
  define s1 where "s1 = s\<lparr>heap := (heap s)(r := model_set (heap s r) a)\<rparr>"
  have mid: "model_id s1 r = modelId s a \<or> model_id s1 r = model_id s r"
    by (cases "map_of a (id_attr s)")
      (simp_all add: s1_def model_id_def modelId_def model_set_def attr_get_def
        merge_conv' map_add_def)
  have prev: "modelId s1 (previous (heap s1 r)) = model_id s r"
    by (simp add: s1_def model_set_def model_id_def)
  have bs: "byId s1 = byId s" by (simp add: s1_def)
  have upd: "(byId s1)(to_key (model_id s r) := None, to_key (modelId s a) \<mapsto> r) = byId s1"
    using b k bs by (auto simp: fun_eq_iff)
  have rk: "rekey r s1 = s1"
    using mid by (auto simp: rekey_def Let_def prev upd na nr)
  have ev: "(onModelEvent (N_change r) ^^ n) (s1\<lparr>emitted := em\<rparr>) =
      s1\<lparr>emitted := em, log := log s1 @ replicate n (N_change r)\<rparr>" for n em
  proof (induction n)
    case 0
    show ?case by simp
  next
    case (Suc n)
    then show ?case
      by (simp add: onModelEvent_def Let_def replicate_app_Cons_same rekey_log_update
          rekey_emitted_update rk)
  qed
  have m: "merge_into silent r a s = s1 \<or>
           merge_into silent r a s =
             s1\<lparr>emitted := emitted s1 @ [N_change r],
                log := log s1 @ replicate (subs s1 r) (N_change r)\<rparr>"
    by (simp add: merge_into_def Let_def s1_def[symmetric] trigger_def ev)
  from m show "byId (merge_into silent r a s) = byId s" by (auto simp: s1_def)
  from m mid k show "to_key (model_id (merge_into silent r a s) r) = to_key (modelId s a)"
    by (auto simp: model_id_def)
  from m show "t \<noteq> r \<Longrightarrow> heap (merge_into silent r a s) t = heap s t" by (auto simp: s1_def)
  from m show "models (merge_into silent r a s) = models s" by (auto simp: s1_def)
  from m show "len (merge_into silent r a s) = len s" by (auto simp: s1_def)
  from m show "subs (merge_into silent r a s) = subs s" by (auto simp: s1_def)
  from m show "next_cid (merge_into silent r a s) = next_cid s" by (auto simp: s1_def)
  from m show "idAttribute (merge_into silent r a s) = idAttribute s" by (auto simp: s1_def)
  from m show "comparator (merge_into silent r a s) = comparator s" by (auto simp: s1_def)
  from m show "validate (merge_into silent r a s) = validate s" by (auto simp: s1_def)
qed

subsection \<open>Changes that keep the index exact\<close>

lemma indexed_add_record:
  assumes i: "indexed s rs" and n: "n \<notin> set rs"
    and nc: "next_cid s \<le> next_cid s2" "n < next_cid s2"
    and sb: "subs s2 = (subs s)(n := Suc 0)"
    and idv: "nullish idv \<or> (plain_key (to_key idv) \<and> byId s (to_key idv) = None)"
    and b: "byId s2 = (if nullish idv then (byId s)(cid_key n \<mapsto> n)
                      else (byId s)(cid_key n \<mapsto> n, to_key idv \<mapsto> n))"
    and mn: "model_id s2 n = idv"
    and mo: "\<And>r. r \<noteq> n \<Longrightarrow> model_id s2 r = model_id s r"
  shows "indexed s2 (rs @ [n])"
proof -
  from i have d: "distinct rs" by (simp add: indexed_def)
  have cn: "byId s (cid_key n) = None"
  proof (cases "byId s (cid_key n)")
    case None
    then show ?thesis .
  next
    case (Some r)
    with i have r: "r \<in> set rs"
      and k: "cid_key n = cid_key r \<or> (\<not> nullish (model_id s r) \<and> cid_key n = to_key (model_id s r))"
      unfolding indexed_def by blast+
    from i r have "nullish (model_id s r) \<or> plain_key (to_key (model_id s r))"
      unfolding indexed_def by blast
    with k r n show ?thesis by (metis cid_key_inj cid_key_not_plain)
  qed
  have kv: "\<not> nullish idv \<Longrightarrow> to_key idv \<noteq> cid_key x" for x
    using idv by (metis cid_key_not_plain)
  have 1: "r < next_cid s2 \<and> subs s2 r = Suc 0 \<and> byId s2 (cid_key r) = Some r \<and>
          (nullish (model_id s2 r) \<or>
           (plain_key (to_key (model_id s2 r)) \<and> byId s2 (to_key (model_id s2 r)) = Some r))"
    if "r \<in> set (rs @ [n])" for r
  proof (cases "r = n")
    case True
    with nc sb b mn idv kv show ?thesis by auto
  next
    case False
    with that have r: "r \<in> set rs" by simp
    from i r have a: "r < next_cid s" "subs s r = Suc 0" "byId s (cid_key r) = Some r"
      "nullish (model_id s r) \<or>
           (plain_key (to_key (model_id s r)) \<and> byId s (to_key (model_id s r)) = Some r)"
      by (simp_all add: indexed_def)
    have k1: "cid_key r \<noteq> cid_key n" using False by simp
    have k2: "\<not> nullish idv \<Longrightarrow> cid_key r \<noteq> to_key idv" using kv by metis
    have k3: "\<not> nullish (model_id s r) \<Longrightarrow> to_key (model_id s r) \<noteq> cid_key n"
      using a(4) by (metis cid_key_not_plain)
    have k4: "\<not> nullish (model_id s r) \<Longrightarrow> \<not> nullish idv \<Longrightarrow> to_key (model_id s r) \<noteq> to_key idv"
      using a(4) idv by auto
    show ?thesis
      using a nc False k1 k2 k3 k4 by (auto simp: sb b mo)
  qed
  have 2: "r \<in> set (rs @ [n]) \<and>
          (k = cid_key r \<or> (\<not> nullish (model_id s2 r) \<and> k = to_key (model_id s2 r)))"
    if "byId s2 k = Some r" for k r
  proof (cases "k = cid_key n \<or> (\<not> nullish idv \<and> k = to_key idv)")
    case True
    with that b have "r = n" by (auto split: if_splits)
    with True mn show ?thesis by auto
  next
    case False
    with that b have bs: "byId s k = Some r" by (auto split: if_splits)
    with i have r: "r \<in> set rs"
      and kk: "k = cid_key r \<or> (\<not> nullish (model_id s r) \<and> k = to_key (model_id s r))"
      by (auto simp: indexed_def)
    from r n have "r \<noteq> n" by auto
    with r kk show ?thesis by (simp add: mo)
  qed
  show ?thesis
    unfolding indexed_def using d n 1 2 by auto
qed

lemma indexed_change_id:
  assumes i: "indexed s rs"
    and b: "byId s2 = byId s" and sb: "subs s2 = subs s" and nc: "next_cid s2 = next_cid s"
    and mo: "\<And>t. t \<noteq> r \<Longrightarrow> model_id s2 t = model_id s t"
    and k: "to_key (model_id s2 r) = to_key (model_id s r)"
    and nl: "nullish (model_id s2 r) = nullish (model_id s r)"
  shows "indexed s2 rs"
proof -
  have e: "to_key (model_id s2 t) = to_key (model_id s t) \<and>
           nullish (model_id s2 t) = nullish (model_id s t)" for t
    using mo k nl by (cases "t = r") auto
  show ?thesis
    using i unfolding indexed_def b sb nc by (simp add: e)
qed

lemma plain_key_not_nullish: "plain_key (to_key v) \<Longrightarrow> \<not> nullish v"
  using nullish_key_reserved by (auto simp: plain_key_def)

lemma default_options:
  "truthy (opt_add (setOptions no_options))" "truthy (opt_remove (setOptions no_options))"
  "truthy (opt_merge (setOptions no_options))" "\<not> truthy (opt_silent (setOptions no_options))"
  "opt_at (setOptions no_options) = None" "opt_index (setOptions no_options) = None"
  "opt_sort (setOptions no_options) = None"
  by (simp_all add: setOptions_def no_options_def default_opt_def truthy_def)

subsection \<open>One turn of the classification loop\<close>

declare get_own.simps [simp del]

lemma construct_fields [simp]:
  "heap (construct s a) =
     (heap s)(next_cid s := \<lparr>attributes = a, previous = a, changed = [],
                             validationError = validate s a, collection = Self\<rparr>)"
  "next_cid (construct s a) = Suc (next_cid s)"
  "subs (construct s a) = (subs s)(next_cid s := 0)"
  "models (construct s a) = models s" "len (construct s a) = len s"
  "byId (construct s a) = byId s" "log (construct s a) = log s"
  "comparator (construct s a) = comparator s" "idAttribute (construct s a) = idAttribute s"
  "validate (construct s a) = validate s"
  by (simp_all add: construct_def)

lemma addReference_fields [simp]:
  "heap (addReference m s) = heap s" "next_cid (addReference m s) = next_cid s"
  "subs (addReference m s) = (subs s)(m := Suc (subs s m))"
  "models (addReference m s) = models s" "len (addReference m s) = len s"
  "byId (addReference m s) =
     (if nullish (model_id s m) then (byId s)(cid_key m \<mapsto> m)
      else (byId s)(cid_key m \<mapsto> m, to_key (model_id s m) \<mapsto> m))"
  "comparator (addReference m s) = comparator s" "idAttribute (addReference m s) = idAttribute s"
  "validate (addReference m s) = validate s"
  by (simp_all add: addReference_def Let_def)

lemma model_id_cong:
  "idAttribute s2 = idAttribute s \<Longrightarrow> attributes (heap s2 r) = attributes (heap s r) \<Longrightarrow>
   model_id s2 r = model_id s r"
  by (simp add: model_id_def modelId_def id_attr_def)

lemma modelId_cong: "idAttribute s2 = idAttribute s \<Longrightarrow> modelId s2 = modelId s"
  by (simp add: modelId_def id_attr_def fun_eq_iff)

lemma has_comparator_cong: "comparator s2 = comparator s \<Longrightarrow> has_comparator s2 = has_comparator s"
  by (simp add: has_comparator_def)

lemma model_id_construct:
  "model_id (construct s a) r = (if r = next_cid s then modelId s a else model_id s r)"
  by (simp add: model_id_def modelId_def id_attr_def)

lemma model_id_addReference [simp]: "model_id (addReference m s) = model_id s"
  by (simp add: model_id_def modelId_def id_attr_def fun_eq_iff)

lemma prepareModel_valid_bag:
  "validate s a = None \<Longrightarrow> prepareModel s (Bag a) = (construct s a, Some (next_cid s))"
  by (simp add: Let_def)

lemma rejection_valid: "validate s a = None \<Longrightarrow> rejection s a = None"
  by (simp add: rejection_def)

lemma rejection_truthy:
  "validate s a = Some err \<Longrightarrow> js_truthy err \<Longrightarrow> rejection s a = Some err"
  by (simp add: rejection_def)

lemma rejection_SomeD:
  "rejection s a = Some err \<Longrightarrow> validate s a = Some err \<and> js_truthy err"
  by (auto simp: rejection_def split: option.splits if_splits)

lemma prepareModel_accepted_bag:
  "rejection s a = None \<Longrightarrow> prepareModel s (Bag a) = (construct s a, Some (next_cid s))"
  by (auto simp: rejection_def Let_def split: option.splits if_splits)

lemma prepareModel_invalid_bag:
  "rejection s a = Some err \<Longrightarrow>
   prepareModel s (Bag a) = ((construct s a)\<lparr>log := log s @ [N_invalid err]\<rparr>, None)"
  by (auto simp: rejection_def Let_def split: option.splits if_splits)

lemma dedupe_fields:
  "fst (dedupe i m (s, v)) = s"
  "v_models (snd (dedupe i m (s, v))) = v_models v"
  "v_toAdd (snd (dedupe i m (s, v))) = v_toAdd v"
  "v_sort (snd (dedupe i m (s, v))) = v_sort v"
  "v_model (snd (dedupe i m (s, v))) = Some m"
  "v_modelMap (snd (dedupe i m (s, v))) = insert (to_key (model_id s m)) (v_modelMap v)"
  "v_order (snd (dedupe i m (s, v))) =
     (if isNew s m \<or> \<not> in_map (v_modelMap v) (to_key (model_id s m))
      then map_option (\<lambda>ord. ord @ [m]) (v_order v) else v_order v)"
  "v_orderChanged (snd (dedupe i m (s, v))) =
     (v_orderChanged v \<or>
      (v_order v \<noteq> None \<and> (isNew s m \<or> \<not> in_map (v_modelMap v) (to_key (model_id s m))) \<and>
       (length (models s) \<le> i \<or> m \<noteq> models s ! i)))"
  by (auto simp: dedupe_def Let_def)

lemma classify_step_new_bag:
  assumes "get_own s (PEntry (Bag a)) = None" and "truthy (opt_add opts)"
    and "rejection s a = None"
  shows "classify_step_own opts srt sa i (Bag a) (s, v) =
           dedupe i (next_cid s)
             (addReference (next_cid s) (construct s a),
              v\<lparr>v_models := v_models v @ [Resolved (next_cid s)],
                v_toAdd := v_toAdd v @ [next_cid s]\<rparr>)"
  using assms
  by (simp add: classify_step_own_def classify_body_def prepareModel_accepted_bag
      del: prepareModel.simps)

lemma classify_step_rejected_bag:
  assumes "get_own s (PEntry (Bag a)) = None" and "truthy (opt_add opts)"
    and "rejection s a = Some err"
  shows "classify_step_own opts srt sa i (Bag a) (s, v) =
           ((construct s a)\<lparr>log := log s @ [N_invalid err]\<rparr>,
            v\<lparr>v_models := v_models v @ [Rejected], v_model := None\<rparr>)"
  using assms
  by (simp add: classify_step_own_def classify_body_def prepareModel_invalid_bag
      del: prepareModel.simps)

lemma classify_step_merge_bag:
  assumes "get_own s (PEntry (Bag a)) = Some ex" and "truthy (opt_merge opts)"
  shows "classify_step_own opts srt sa i (Bag a) (s, v) =
           dedupe i ex
             (merge_into (truthy (opt_silent opts)) ex a s,
              v\<lparr>v_modelMap := (if truthy (opt_remove opts) then insert (cid_key ex) (v_modelMap v)
                                else v_modelMap v),
                v_sort := (v_sort v \<or>
                           (srt \<and> hasChanged (heap (merge_into (truthy (opt_silent opts)) ex a s) ex) sa)),
                v_models := v_models v @ [Resolved ex]\<rparr>)"
  using assms by (simp add: classify_step_own_def classify_body_def Let_def differs_def entry_attrs_def)

lemma plain_key_apart:
  assumes "plain_key k"
  shows "object_key \<noteq> k" "k \<noteq> cid_key n" "k \<noteq> ''undefined''" "k \<noteq> ''null''"
  using assms by (auto simp: plain_key_def reserved_key_def)

subsection \<open>What the classification loop leaves alone\<close>

lemma onModelEvent_frame:
  "models (onModelEvent ev s) = models s" "len (onModelEvent ev s) = len s"
  "heap (onModelEvent ev s) = heap s" "subs (onModelEvent ev s) = subs s"
  "next_cid (onModelEvent ev s) = next_cid s" "comparator (onModelEvent ev s) = comparator s"
  "idAttribute (onModelEvent ev s) = idAttribute s" "validate (onModelEvent ev s) = validate s"
  by (cases ev; simp add: onModelEvent_def rekey_def Let_def)+

lemma funpow_onModelEvent_frame:
  "models ((onModelEvent ev ^^ n) s) = models s \<and> len ((onModelEvent ev ^^ n) s) = len s \<and>
   heap ((onModelEvent ev ^^ n) s) = heap s \<and> subs ((onModelEvent ev ^^ n) s) = subs s \<and>
   next_cid ((onModelEvent ev ^^ n) s) = next_cid s \<and>
   comparator ((onModelEvent ev ^^ n) s) = comparator s \<and>
   idAttribute ((onModelEvent ev ^^ n) s) = idAttribute s \<and>
   validate ((onModelEvent ev ^^ n) s) = validate s"
  by (induction n) (simp_all add: onModelEvent_frame)

lemma trigger_frame:
  "models (trigger r ev s) = models s" "len (trigger r ev s) = len s"
  "heap (trigger r ev s) = heap s" "subs (trigger r ev s) = subs s"
  "next_cid (trigger r ev s) = next_cid s" "comparator (trigger r ev s) = comparator s"
  "idAttribute (trigger r ev s) = idAttribute s" "validate (trigger r ev s) = validate s"
  by (simp_all add: trigger_def funpow_onModelEvent_frame)

lemma merge_into_frame:
  "models (merge_into silent ex a s) = models s" "len (merge_into silent ex a s) = len s"
  "subs (merge_into silent ex a s) = subs s"
  "next_cid (merge_into silent ex a s) = next_cid s"
  "comparator (merge_into silent ex a s) = comparator s"
  "idAttribute (merge_into silent ex a s) = idAttribute s"
  "validate (merge_into silent ex a s) = validate s"
  by (simp_all add: merge_into_def Let_def trigger_frame)

lemma prepareModel_frame:
  "models (fst (prepareModel s e)) = models s" "len (fst (prepareModel s e)) = len s"
  "byId (fst (prepareModel s e)) = byId s"
  "comparator (fst (prepareModel s e)) = comparator s"
  "idAttribute (fst (prepareModel s e)) = idAttribute s"
  "validate (fst (prepareModel s e)) = validate s"
  "next_cid s \<le> next_cid (fst (prepareModel s e))"
  by (cases e; simp add: Let_def split: option.splits)+

lemma classify_step_frame:
  "models (fst (classify_step_own opts srt sa i e (s, v))) = models s \<and>
   len (fst (classify_step_own opts srt sa i e (s, v))) = len s \<and>
   comparator (fst (classify_step_own opts srt sa i e (s, v))) = comparator s \<and>
   idAttribute (fst (classify_step_own opts srt sa i e (s, v))) = idAttribute s \<and>
   validate (fst (classify_step_own opts srt sa i e (s, v))) = validate s \<and>
   next_cid s \<le> next_cid (fst (classify_step_own opts srt sa i e (s, v)))"
  using prepareModel_frame[where s = s and e = e]
  by (auto simp: classify_step_own_def classify_body_def Let_def merge_into_frame split: option.splits prod.splits)

lemma classify_frame:
  "models (fst (classify_own opts srt sa i es (s, v))) = models s \<and>
   len (fst (classify_own opts srt sa i es (s, v))) = len s \<and>
   comparator (fst (classify_own opts srt sa i es (s, v))) = comparator s \<and>
   idAttribute (fst (classify_own opts srt sa i es (s, v))) = idAttribute s \<and>
   validate (fst (classify_own opts srt sa i es (s, v))) = validate s \<and>
   next_cid s \<le> next_cid (fst (classify_own opts srt sa i es (s, v)))"
proof (induction es arbitrary: s v i)
  case Nil
  show ?case by simp
next
  case (Cons e es)
  obtain s1 v1 where st: "classify_step_own opts srt sa i e (s, v) = (s1, v1)"
    by (cases "classify_step_own opts srt sa i e (s, v)")
  from classify_step_frame[of opts srt sa i e s v] st Cons.IH[of "Suc i" s1 v1]
  show ?case by simp
qed

lemma classify_append:
  "classify_own opts srt sa i (xs @ ys) sv =
     classify_own opts srt sa (i + length xs) ys (classify_own opts srt sa i xs sv)"
  by (induction xs arbitrary: i sv) simp_all

lemma snd_dedupe_models [simp]: "v_models (snd (dedupe i m sv)) = v_models (snd sv)"
  by (cases sv) (simp add: dedupe_fields)

lemma snd_dedupe_sort [simp]: "v_sort (snd (dedupe i m sv)) = v_sort (snd sv)"
  by (cases sv) (simp add: dedupe_fields)

lemma classify_step_slots:
  "\<exists>x. v_models (snd (classify_step_own opts srt sa i e (s, v))) = v_models v @ [x]"
  by (auto simp: classify_step_own_def classify_body_def Let_def split: option.splits prod.splits)

lemma classify_slots:
  "\<exists>ws. v_models (snd (classify_own opts srt sa i es (s, v))) = v_models v @ ws \<and>
        length ws = length es"
proof (induction es arbitrary: s v i)
  case Nil
  show ?case by simp
next
  case (Cons e es)
  obtain s1 v1 where st: "classify_step_own opts srt sa i e (s, v) = (s1, v1)"
    by (cases "classify_step_own opts srt sa i e (s, v)")
  from classify_step_slots[of opts srt sa i e s v] st obtain x where
    x: "v_models v1 = v_models v @ [x]" by auto
  from Cons.IH[of "Suc i" s1 v1] obtain ws where
    "v_models (snd (classify_own opts srt sa (Suc i) es (s1, v1))) = v_models v1 @ ws"
    "length ws = length es" by blast
  with x st show ?case by (intro exI[of _ "x # ws"]) simp
qed

lemma classify_step_sort:
  "v_sort (snd (classify_step_own opts srt sa i e (s, v))) \<Longrightarrow> v_sort v \<or> srt"
  by (auto simp: classify_step_own_def classify_body_def Let_def split: option.splits prod.splits if_splits)

lemma classify_sort:
  "v_sort (snd (classify_own opts srt sa i es (s, v))) \<Longrightarrow> v_sort v \<or> srt"
proof (induction es arbitrary: s v i)
  case Nil
  then show ?case by simp
next
  case (Cons e es)
  obtain s1 v1 where st: "classify_step_own opts srt sa i e (s, v) = (s1, v1)"
    by (cases "classify_step_own opts srt sa i e (s, v)")
  from Cons.prems st have "v_sort (snd (classify_own opts srt sa (Suc i) es (s1, v1)))" by simp
  from Cons.IH[OF this] have "v_sort v1 \<or> srt" .
  with classify_step_sort[of opts srt sa i e s v] st show ?case by auto
qed

subsection \<open>set returns\<close>

lemma remove_one_frame:
  "comparator (fst (remove_one silent m sx)) = comparator (fst sx)"
  "set (models (fst (remove_one silent m sx))) \<subseteq> set (models (fst sx))"
  "ran (byId (fst (remove_one silent m sx))) \<subseteq> ran (byId (fst sx))"
proof -
  obtain s ix where sx: "sx = (s, ix)" by (cases sx)
  show "comparator (fst (remove_one silent m sx)) = comparator (fst sx)"
    by (simp add: sx remove_one_fields)
  show "set (models (fst (remove_one silent m sx))) \<subseteq> set (models (fst sx))"
    by (auto simp: sx remove_one_def Let_def trigger_plain removeReference_def splice_del_def
          dest: in_set_takeD in_set_dropD)
  show "ran (byId (fst (remove_one silent m sx))) \<subseteq> ran (byId (fst sx))"
    by (auto simp: sx remove_one_fields ran_def split: if_splits)
qed

lemma remove_loop_frame:
  "comparator (fst (fst (remove_loop_own silent ps sx))) = comparator (fst sx) \<and>
   set (models (fst (fst (remove_loop_own silent ps sx)))) \<subseteq> set (models (fst sx)) \<and>
   ran (byId (fst (fst (remove_loop_own silent ps sx)))) \<subseteq> ran (byId (fst sx))"
proof (induction ps arbitrary: sx)
  case Nil
  show ?case by simp
next
  case (Cons p ps)
  show ?case
  proof (cases "get_own (fst sx) p")
    case None
    with Cons.IH[of sx] show ?thesis by (simp add: split_beta)
  next
    case (Some m)
    from Cons.IH[of "remove_one silent m sx"] remove_one_frame[of silent m sx] Some
    show ?thesis by (auto simp: split_beta)
  qed
qed

lemma remove_stale_frame:
  assumes "remove_stale_own silent mm (s, ix) = Inr (s', ix')"
  shows "comparator s' = comparator s" "set (models s') \<subseteq> set (models s)"
    "ran (byId s') \<subseteq> ran (byId s)"
proof -
  define ps where "ps = map (\<lambda>m. PEntry (Rec m))
                          (filter (\<lambda>m. cid_key m \<notin> mm) (take (nat (len s)) (models s)))"
  from assms have "s' = s \<or> s' = fst (fst (remove_loop_own silent ps (s, ix)))"
    by (auto simp: remove_stale_own_def Let_def ps_def split: if_splits)
  with remove_loop_frame[of silent ps "(s, ix)"]
  show "comparator s' = comparator s" "set (models s') \<subseteq> set (models s)"
    "ran (byId s') \<subseteq> ran (byId s)"
    by auto
qed

lemma remove_stale_total:
  "len s \<le> int (length (models s)) \<Longrightarrow> \<exists>sx. remove_stale_own silent mm (s, ix) = Inr sx"
  by (simp add: remove_stale_own_def Let_def)

lemma set_c_total:
  assumes "len s \<le> int (length (models s))"
  shows "\<exists>s' out. set_c_own s inp opts = Inr (s', out)"
proof -
  define o2 where "o2 = setOptions opts"
  obtain s1 v where cl:
    "classify_own o2 (sortable s o2) (sortAttr s) 0 (entries_of inp) (s, init_vars s o2) = (s1, v)"
    by (cases "classify_own o2 (sortable s o2) (sortAttr s) 0 (entries_of inp) (s, init_vars s o2)")
  from classify_frame[of o2 "sortable s o2" "sortAttr s" 0 "entries_of inp" s "init_vars s o2"] cl
  have f: "models s1 = models s" "len s1 = len s" "comparator s1 = comparator s" by simp_all
  from classify_sort[of o2 "sortable s o2" "sortAttr s" 0 "entries_of inp" s "init_vars s o2"] cl
  have vs: "v_sort v \<longrightarrow> sortable s o2" by (simp add: init_vars_def)
  define r where "r = (if truthy (opt_remove o2)
               then remove_stale_own (truthy (opt_silent o2)) (v_modelMap v) (s1, opt_index o2)
               else Inr (s1, opt_index o2))"
  have "\<exists>s2 ix2. r = Inr (s2, ix2) \<and> comparator s2 = comparator s"
  proof (cases "truthy (opt_remove o2)")
    case True
    from assms f have "len s1 \<le> int (length (models s1))" by simp
    from remove_stale_total[OF this, of "truthy (opt_silent o2)" "v_modelMap v" "opt_index o2"]
    obtain s2 ix2 where
      rs: "remove_stale_own (truthy (opt_silent o2)) (v_modelMap v) (s1, opt_index o2) = Inr (s2, ix2)"
      by (metis surj_pair)
    from remove_stale_frame(1)[OF rs] f True rs show ?thesis by (simp add: r_def)
  next
    case False
    with f show ?thesis by (simp add: r_def)
  qed
  then obtain s2 ix2 where r: "r = Inr (s2, ix2)" and c2: "comparator s2 = comparator s" by blast
  have "v_sort v \<or> sortable s o2 \<longrightarrow> has_comparator s2"
    using vs has_comparator_cong[OF c2] by (auto simp: sortable_def)
  from set_finish_total[OF this] obtain s' where
    "set_finish o2 (sortable s o2) (position s o2) v (s2, ix2) = Inr s'" by blast
  with cl r show ?thesis
    by (simp add: set_c_own_def Let_def o2_def[symmetric] r_def[symmetric])
qed

subsection \<open>The records the classification loop refers to\<close>

lemma ran_upd_subset: "ran (m(k \<mapsto> x)) \<subseteq> insert x (ran m)"
  by (auto simp: ran_def split: if_splits)

lemma ran_del_subset: "ran (m(k := None)) \<subseteq> ran m"
  by (auto simp: ran_def split: if_splits)

lemma get_ran: "get_own s p = Some r \<Longrightarrow> r \<in> ran (byId s)"
proof (cases p)
  case (PKey v)
  assume "get_own s p = Some r"
  with PKey show ?thesis
    by (auto simp: get_own.simps orelse_def ran_def split: option.splits if_splits)
next
  case (PEntry e)
  assume "get_own s p = Some r"
  with PEntry show ?thesis
    by (cases e) (auto simp: get_own.simps orelse_def ran_def split: option.splits if_splits)
qed

lemma ran_rekey: "ran (byId (rekey r s)) \<subseteq> insert r (ran (byId s))"
  using ran_upd_subset ran_del_subset
  by (simp add: rekey_def Let_def) (blast dest!: subsetD[OF ran_upd_subset] subsetD[OF ran_del_subset])

lemma ran_onModelEvent_change:
  "ran (byId (onModelEvent (N_change r) s)) \<subseteq> insert r (ran (byId s))"
  using ran_rekey[of r s] by (simp add: onModelEvent_def Let_def)

lemma ran_funpow_change:
  "ran (byId ((onModelEvent (N_change r) ^^ n) s)) \<subseteq> insert r (ran (byId s))"
proof (induction n)
  case 0
  show ?case by auto
next
  case (Suc n)
  from ran_onModelEvent_change[of r "(onModelEvent (N_change r) ^^ n) s"] Suc
  show ?case by auto
qed

lemma ran_merge_into: "ran (byId (merge_into silent ex a s)) \<subseteq> insert ex (ran (byId s))"
proof -
  define s1 where "s1 = s\<lparr>heap := (heap s)(ex := model_set (heap s ex) a)\<rparr>"
  have "ran (byId (trigger ex (N_change ex) s1)) \<subseteq> insert ex (ran (byId s1))"
    unfolding trigger_def using ran_funpow_change[of r n "s\<lparr>emitted := em\<rparr>" for r n s em]
    by simp
  then show ?thesis
    by (auto simp: merge_into_def Let_def s1_def)
qed

lemma ran_addReference: "ran (byId (addReference m s)) \<subseteq> insert m (ran (byId s))"
  by (auto simp: dest!: subsetD[OF ran_upd_subset])

lemma refs_dedupe: "refs (dedupe i m (s, v)) \<subseteq> insert m (refs (s, v))"
  by (auto simp: refs_def dedupe_def Let_def split: option.splits)

lemma classify_step_refs:
  assumes "classify_step_own opts srt sa i e (s, v) = (s', v')"
  shows "refs (s', v') \<subseteq>
           refs (s, v) \<union> entry_recs e \<union> {k. next_cid s \<le> k \<and> k < next_cid s'}"
proof (cases "get_own s (PEntry e)")
  case (Some ex)
  define s1 where "s1 = (if truthy (opt_merge opts) \<and> differs e ex
                          then merge_into (truthy (opt_silent opts)) ex (entry_attrs s e) s else s)"
  have ex: "ex \<in> refs (s, v)" using get_ran[OF Some] by (simp add: refs_def)
  have r1: "ran (byId s1) \<subseteq> insert ex (ran (byId s))" "models s1 = models s"
    using ran_merge_into[of "truthy (opt_silent opts)" ex "entry_attrs s e" s]
    by (auto simp: s1_def merge_into_frame)
  from assms Some obtain v1 where
    d: "dedupe i ex (s1, v1) = (s', v')" and v1: "v_toAdd v1 = v_toAdd v" "v_order v1 = v_order v"
      "v_model v1 = v_model v"
    by (auto simp: classify_step_own_def classify_body_def Let_def s1_def split: if_splits)
  have "refs (s1, v1) \<subseteq> insert ex (refs (s, v))"
    using r1 v1 by (auto simp: refs_def)
  with refs_dedupe[of i ex s1 v1] d ex show ?thesis by auto
next
  case None
  show ?thesis
  proof (cases "truthy (opt_add opts)")
    case False
    show ?thesis
    proof (cases "v_model v")
      case None
      with assms \<open>get_own s (PEntry e) = None\<close> False show ?thesis
        by (auto simp: classify_step_own_def classify_body_def refs_def)
    next
      case (Some m)
      with assms \<open>get_own s (PEntry e) = None\<close> False
      have d: "(s', v') = dedupe i m (s, v\<lparr>v_models := v_models v @ [Raw e]\<rparr>)"
        by (simp add: classify_step_own_def classify_body_def)
      have "m \<in> refs (s, v)" using Some by (simp add: refs_def)
      with refs_dedupe[of i m s "v\<lparr>v_models := v_models v @ [Raw e]\<rparr>"] d show ?thesis
        by (auto simp: refs_def)
    qed
  next
    case True
    show ?thesis
    proof (cases e)
      case (Rec r)
      define s1 where "s1 = fst (prepareModel s (Rec r))"
      have p: "prepareModel s (Rec r) = (s1, Some r)" by (simp add: s1_def)
      have f: "models s1 = models s" "byId s1 = byId s"
        by (simp_all add: s1_def)
      from assms None True Rec p have
        d: "(s', v') = dedupe i r (addReference r s1,
                 v\<lparr>v_models := v_models v @ [Resolved r], v_toAdd := v_toAdd v @ [r]\<rparr>)"
        by (simp add: classify_step_own_def classify_body_def del: prepareModel.simps)
      have "refs (addReference r s1,
                 v\<lparr>v_models := v_models v @ [Resolved r], v_toAdd := v_toAdd v @ [r]\<rparr>)
              \<subseteq> insert r (refs (s, v))"
        using ran_addReference[of r s1] f by (auto simp: refs_def)
      with refs_dedupe[of i r "addReference r s1"
             "v\<lparr>v_models := v_models v @ [Resolved r], v_toAdd := v_toAdd v @ [r]\<rparr>"] d Rec
      show ?thesis by auto
    next
      case (Bag a)
      show ?thesis
      proof (cases "rejection s a")
        case (Some err)
        from assms[unfolded Bag classify_step_rejected_bag[OF None[unfolded Bag] True Some]]
        show ?thesis by (auto simp: refs_def)
      next
        case vn: None
        define n where "n = next_cid s"
        from assms[unfolded Bag classify_step_new_bag[OF None[unfolded Bag] True vn]]
        have d: "(s', v') = dedupe i n (addReference n (construct s a),
                 v\<lparr>v_models := v_models v @ [Resolved n], v_toAdd := v_toAdd v @ [n]\<rparr>)"
          by (simp add: n_def)
        then have nc: "next_cid s' = Suc n"
          by (simp add: prod_eq_iff dedupe_fields n_def)
        have "refs (addReference n (construct s a),
                 v\<lparr>v_models := v_models v @ [Resolved n], v_toAdd := v_toAdd v @ [n]\<rparr>)
              \<subseteq> insert n (refs (s, v))"
          using ran_addReference[of n "construct s a"] by (auto simp: refs_def)
        with refs_dedupe[of i n "addReference n (construct s a)"
             "v\<lparr>v_models := v_models v @ [Resolved n], v_toAdd := v_toAdd v @ [n]\<rparr>"] d nc
        show ?thesis by (auto simp: n_def)
      qed
    qed
  qed
qed

lemma classify_refs:
  assumes "classify_own opts srt sa i es (s, v) = (s', v')"
  shows "refs (s', v') \<subseteq>
           refs (s, v) \<union> (\<Union>e \<in> set es. entry_recs e) \<union> {k. next_cid s \<le> k \<and> k < next_cid s'}"
  using assms
proof (induction es arbitrary: s v i)
  case Nil
  then show ?case by auto
next
  case (Cons e es)
  obtain s1 v1 where st: "classify_step_own opts srt sa i e (s, v) = (s1, v1)"
    by (cases "classify_step_own opts srt sa i e (s, v)")
  from Cons.prems st have cl: "classify_own opts srt sa (Suc i) es (s1, v1) = (s', v')" by simp
  from classify_step_frame[of opts srt sa i e s v] st have n1: "next_cid s \<le> next_cid s1" by simp
  from classify_frame[of opts srt sa "Suc i" es s1 v1] cl have n2: "next_cid s1 \<le> next_cid s'"
    by simp
  define J0 where "J0 = {k. next_cid s \<le> k \<and> k < next_cid s1}"
  define J1 where "J1 = {k. next_cid s1 \<le> k \<and> k < next_cid s'}"
  define J where "J = {k. next_cid s \<le> k \<and> k < next_cid s'}"
  define E where "E = (\<Union>e \<in> set es. entry_recs e)"
  have j: "J0 \<subseteq> J" "J1 \<subseteq> J" using n1 n2 by (auto simp: J0_def J1_def J_def)
  have a: "refs (s1, v1) \<subseteq> refs (s, v) \<union> entry_recs e \<union> J0"
    using classify_step_refs[OF st] by (simp add: J0_def)
  have b: "refs (s', v') \<subseteq> refs (s1, v1) \<union> E \<union> J1"
    using Cons.IH[OF cl] by (simp add: J1_def E_def)
  have "refs (s', v') \<subseteq> refs (s, v) \<union> (entry_recs e \<union> E) \<union> J"
    using a b j by blast
  then show ?case by (simp add: J_def E_def)
qed

subsection \<open>The phases of set\<close>

lemma emits_log_subset: "emits P s s' \<Longrightarrow> set (log s) \<subseteq> set (log s')"
  by (auto simp: emits_def)

lemma set_c_phases:
  assumes "set_c_own s inp opts = Inr (s', out)"
    and "classify_own (setOptions opts) (sortable s (setOptions opts)) (sortAttr s) 0 (entries_of inp)
           (s, init_vars s (setOptions opts)) = (s2, v2)"
  shows "\<exists>s3 ix3.
           (if truthy (opt_remove (setOptions opts))
            then remove_stale_own (truthy (opt_silent (setOptions opts))) (v_modelMap v2)
                   (s2, opt_index (setOptions opts))
            else Inr (s2, opt_index (setOptions opts))) = Inr (s3, ix3) \<and>
           set_finish (setOptions opts) (sortable s (setOptions opts))
             (position s (setOptions opts)) v2 (s3, ix3) = Inr s' \<and>
           out = set_result inp (v_models v2)"
  using assms by (auto simp: set_c_own_def Let_def split: sum.splits)

section \<open>From the keys the index has itself to the operations\<close>

subsection \<open>Lookups\<close>

lemma proto_key_not_cid: "k \<in> set proto_keys \<Longrightarrow> \<not> is_cid_key k"
  by (auto simp: proto_keys_def is_cid_key_def is_digit_def)

lemma cid_key_not_proto: "cid_key n \<notin> set proto_keys"
  using proto_key_not_cid[of "cid_key n"] is_cid_key_cid_key[of n] by blast


lemma in_map_cid_key [simp]: "in_map m (cid_key n) = (cid_key n \<in> m)"
  by (simp add: in_map_def cid_key_not_proto)

lemma lookup_own: "byId s k = Some r \<Longrightarrow> lookup s k = Some (Hit r)"
  by (simp add: lookup_def)

lemma lookup_none: "byId s k = None \<Longrightarrow> k \<notin> set proto_keys \<Longrightarrow> lookup s k = None"
  by (simp add: lookup_def)

lemma lookup_NoneD: "lookup s k = None \<Longrightarrow> byId s k = None"
  by (simp add: lookup_def split: option.splits if_splits)

lemma lookup_HitD: "lookup s k = Some (Hit r) \<Longrightarrow> byId s k = Some r"
  by (simp add: lookup_def split: option.splits if_splits)

text \<open>\<^verbatim>\<open>get\<close> answers with the record found among the keys the index has itself, or else
  with an inherited name.\<close>

lemma orelse_lookup:
  assumes "orelse (lookup s k1) (orelse (lookup s k2) (lookup s k3)) = x"
  shows "(x = None \<and> orelse (byId s k1) (orelse (byId s k2) (byId s k3)) = None) \<or>
         (\<exists>r. x = Some (Hit r) \<and> orelse (byId s k1) (orelse (byId s k2) (byId s k3)) = Some r) \<or>
         (\<exists>k. x = Some (Inherited k))"
  using assms
  by (auto simp: orelse_def lookup_def split: option.splits if_splits)

lemma get_cases:
  "(get s p = None \<and> get_own s p = None) \<or>
   (\<exists>r. get s p = Some (Hit r) \<and> get_own s p = Some r) \<or>
   (\<exists>k. get s p = Some (Inherited k))"
proof (cases p)
  case (PKey v)
  show ?thesis
  proof (cases "nullish v")
    case True
    with PKey show ?thesis by (simp add: get_own.simps)
  next
    case False
    from orelse_lookup[OF refl, of s "to_key v" "to_key JUndefined" "to_key JUndefined"] False PKey
    show ?thesis by (auto simp: get_own.simps orelse_def split: option.splits)
  qed
next
  case (PEntry e)
  show ?thesis
  proof (cases e)
    case (Bag a)
    from orelse_lookup[OF refl, of s object_key "to_key (modelId s a)" "to_key (attr_get a ''cid'')"]
    show ?thesis by (simp add: PEntry Bag get_own.simps)
  next
    case (Rec r)
    from orelse_lookup[OF refl, of s object_key "to_key (model_id s r)" "cid_key r"]
    show ?thesis by (simp add: PEntry Rec get_own.simps)
  qed
qed

lemma get_NoneD: "get s p = None \<Longrightarrow> get_own s p = None"
  using get_cases[of s p] by auto


text \<open>A lookup that meets no inherited name is a lookup among the own keys.\<close>

lemma get_clean:
  assumes "\<And>k. get s p \<noteq> Some (Inherited k)"
  shows "get s p = map_option Hit (get_own s p)"
  using get_cases[of s p] assms by auto

subsection \<open>The loops\<close>

lemma classify_step_cases:
  "(\<exists>k. get s (PEntry e) = Some (Inherited k) \<and>
        classify_step opts srt sa i e (s, v) = Inl TypeError) \<or>
   classify_step opts srt sa i e (s, v) = Inr (classify_step_own opts srt sa i e (s, v))"
  using get_cases[of s "PEntry e"]
  by (auto simp: classify_step_def classify_step_own_def)

lemma classify_step_Inr:
  "classify_step opts srt sa i e sv = Inr sv' \<Longrightarrow> classify_step_own opts srt sa i e sv = sv'"
  using classify_step_cases[of "fst sv" e opts srt sa i "snd sv"] by auto

lemma classify_step_error:
  "classify_step opts srt sa i e sv = Inl err \<Longrightarrow> err = TypeError"
  using classify_step_cases[of "fst sv" e opts srt sa i "snd sv"] by auto

lemma classify_step_clean:
  assumes "get s (PEntry e) = map_option Hit (get_own s (PEntry e))"
  shows "classify_step opts srt sa i e (s, v) = Inr (classify_step_own opts srt sa i e (s, v))"
  using assms classify_step_cases[of s e opts srt sa i v]
  by (cases "get_own s (PEntry e)") auto

lemma classify_Inr:
  "classify opts srt sa i es sv = Inr sv' \<Longrightarrow> classify_own opts srt sa i es sv = sv'"
proof (induction es arbitrary: i sv)
  case Nil
  then show ?case by simp
next
  case (Cons e es)
  from Cons.prems obtain sv1 where
    st: "classify_step opts srt sa i e sv = Inr sv1"
    and rest: "classify opts srt sa (Suc i) es sv1 = Inr sv'"
    by (auto split: sum.splits)
  from classify_step_Inr[OF st] Cons.IH[OF rest] show ?case by simp
qed

lemma classify_error:
  "classify opts srt sa i es sv = Inl err \<Longrightarrow> err = TypeError"
proof (induction es arbitrary: i sv)
  case Nil
  then show ?case by simp
next
  case (Cons e es)
  then show ?case by (auto split: sum.splits dest: classify_step_error)
qed

lemma classify_append_c:
  "classify opts srt sa i (es1 @ es2) sv =
     (case classify opts srt sa i es1 sv of
        Inl err \<Rightarrow> Inl err
      | Inr sv1 \<Rightarrow> classify opts srt sa (i + length es1) es2 sv1)"
  by (induction es1 arbitrary: i sv) (auto split: sum.splits)

lemma remove_loop_Inr:
  "remove_loop silent ps sx = Inr res \<Longrightarrow> remove_loop_own silent ps sx = res"
proof (induction ps arbitrary: sx res)
  case Nil
  then show ?case by simp
next
  case (Cons p ps)
  from get_cases[of "fst sx" p] show ?case
  proof (elim disjE exE conjE)
    assume g: "get (fst sx) p = None" "get_own (fst sx) p = None"
    with Cons.prems obtain r where r: "remove_loop silent ps sx = Inr r"
      and res: "res = (fst r, None # snd r)"
      by (auto split: sum.splits)
    from Cons.IH[OF r] g res show ?thesis by (simp add: case_prod_beta)
  next
    fix m assume g: "get (fst sx) p = Some (Hit m)" "get_own (fst sx) p = Some m"
    with Cons.prems obtain r where r: "remove_loop silent ps (remove_one silent m sx) = Inr r"
      and res: "res = (fst r, Some m # snd r)"
      by (auto split: sum.splits)
    from Cons.IH[OF r] g res show ?thesis by (simp add: case_prod_beta)
  next
    fix k assume "get (fst sx) p = Some (Inherited k)"
    with Cons.prems show ?thesis by simp
  qed
qed

lemma remove_stale_Inr:
  "remove_stale silent mm sx = Inr r \<Longrightarrow> remove_stale_own silent mm sx = Inr r"
  by (cases sx)
     (auto simp: remove_stale_def remove_stale_own_def Let_def
           split: if_splits sum.splits dest!: remove_loop_Inr)

subsection \<open>set\<close>

lemma set_c_Inr:
  assumes "set_c s inp opts = Inr x"
  shows "set_c_own s inp opts = Inr x"
proof -
  define o2 where "o2 = setOptions opts"
  from assms obtain s1 v where
    cl: "classify o2 (sortable s o2) (sortAttr s) 0 (entries_of inp) (s, init_vars s o2)
           = Inr (s1, v)"
    and rest: "set_rest s inp o2 (s1, v) = Inr x"
    by (auto simp: set_c_def first_loop_def o2_def split: sum.splits)
  note co = classify_Inr[OF cl]
  from rest obtain sx where
    rm: "(if truthy (opt_remove o2)
          then remove_stale (truthy (opt_silent o2)) (v_modelMap v) (s1, opt_index o2)
          else Inr (s1, opt_index o2)) = Inr sx"
    and fin: "(case set_finish o2 (sortable s o2) (position s o2) v sx of
                 Inl err \<Rightarrow> Inl err
               | Inr s3 \<Rightarrow> Inr (s3, set_result inp (v_models v))) = Inr x"
    by (auto simp: set_rest_def removal_pass_def split: sum.splits)
  have rmo: "(if truthy (opt_remove o2)
          then remove_stale_own (truthy (opt_silent o2)) (v_modelMap v) (s1, opt_index o2)
          else Inr (s1, opt_index o2)) = Inr sx"
    using rm by (auto split: if_splits dest: remove_stale_Inr)
  show ?thesis
    unfolding set_c_own_def Let_def o2_def[symmetric] co using rmo fin by simp
qed

lemma add_c_Inr: "add_c s inp opts = Inr x \<Longrightarrow> add_c_own s inp opts = Inr x"
  by (simp add: add_c_def add_c_own_def set_c_Inr)


subsection \<open>What each step emits on records\<close>

lemma sends_refl [simp]: "sends P s s"
  by (simp add: sends_def)

lemma sends_same: "emitted s' = emitted s \<Longrightarrow> sends P s s'"
  by (simp add: sends_def)

lemma sends_trans: "sends P s s1 \<Longrightarrow> sends P s1 s2 \<Longrightarrow> sends P s s2"
  by (auto simp: sends_def)

lemma sends_mono: "sends P s s' \<Longrightarrow> (\<And>n. P n \<Longrightarrow> Q n) \<Longrightarrow> sends Q s s'"
  by (auto simp: sends_def list_all_iff)

lemma emitted_rekey [simp]: "emitted (rekey r s) = emitted s"
  by (simp add: rekey_def Let_def)

lemma emitted_onModelEvent [simp]: "emitted (onModelEvent ev s) = emitted s"
  by (simp add: onModelEvent_def Let_def split: notification.splits)

lemma emitted_funpow_onModelEvent [simp]: "emitted ((onModelEvent ev ^^ n) s) = emitted s"
  by (induction n arbitrary: s) simp_all

lemma emitted_trigger: "emitted (trigger r ev s) = emitted s @ [ev]"
  by (simp add: trigger_def)

lemma emitted_addReference [simp]: "emitted (addReference m s) = emitted s"
  by (simp add: addReference_def Let_def)

lemma emitted_removeReference [simp]: "emitted (removeReference m s) = emitted s"
  by (simp add: removeReference_def)

lemma emitted_construct [simp]: "emitted (construct s a) = emitted s"
  by (simp add: construct_def)

lemma emitted_prepareModel [simp]: "emitted (fst (prepareModel s e)) = emitted s"
  by (cases e) (auto simp: Let_def split: option.splits)

lemma sends_merge_into: "sends is_change s (merge_into silent ex a s)"
  by (auto simp: merge_into_def Let_def sends_def emitted_trigger)

lemma sends_classify_step: "sends is_change s (fst (classify_step_own opts srt sa i e (s, v)))"
proof -
  note m = sends_merge_into[of s "truthy (opt_silent opts)"]
  have p: "\<And>s1 x. prepareModel s e = (s1, x) \<Longrightarrow> emitted s1 = emitted s"
    using emitted_prepareModel[of s e] by simp
  show ?thesis
    using m
    by (auto simp: classify_step_own_def classify_body_def Let_def sends_same dest: p
             split: option.splits prod.splits if_splits)
qed

lemma sends_classify: "sends is_change s (fst (classify_own opts srt sa i es (s, v)))"
proof (induction es arbitrary: s v i)
  case Nil
  show ?case by simp
next
  case (Cons e es)
  obtain s1 v1 where st: "classify_step_own opts srt sa i e (s, v) = (s1, v1)"
    by (cases "classify_step_own opts srt sa i e (s, v)")
  have "sends is_change s s1" using sends_classify_step[of s opts srt sa i e v] st by simp
  moreover have "sends is_change s1 (fst (classify_own opts srt sa (Suc i) es (s1, v1)))"
    by (rule Cons.IH)
  ultimately show ?case using st by (simp add: sends_trans)
qed

lemma sends_remove_one: "sends is_remove s (fst (remove_one silent m (s, ix)))"
  by (auto simp: remove_one_def Let_def sends_def emitted_trigger)

lemma sends_remove_loop: "sends is_remove s (fst (fst (remove_loop_own silent ps (s, ix))))"
proof (induction ps arbitrary: s ix)
  case Nil
  show ?case by simp
next
  case (Cons p ps)
  show ?case
  proof (cases "get_own s p")
    case None
    then show ?thesis using Cons.IH[of s ix] by (simp add: split_beta)
  next
    case (Some m)
    obtain s1 ix1 where r: "remove_one silent m (s, ix) = (s1, ix1)"
      by (cases "remove_one silent m (s, ix)")
    have "sends is_remove s s1" using sends_remove_one[of s silent m ix] r by simp
    moreover have "sends is_remove s1 (fst (fst (remove_loop_own silent ps (s1, ix1))))"
      by (rule Cons.IH)
    ultimately show ?thesis using Some r by (simp add: sends_trans split_beta)
  qed
qed

lemma sends_remove_stale:
  assumes "remove_stale_own silent mm (s, ix) = Inr (s', ix')"
  shows "sends is_remove s s'"
proof (cases "filter (\<lambda>m. cid_key m \<notin> mm) (take (nat (len s)) (models s)) = []")
  case True
  with assms show ?thesis by (auto simp: remove_stale_own_def Let_def split: if_splits)
next
  case False
  define ps where "ps = map (\<lambda>m. PEntry (Rec m)) (filter (\<lambda>m. cid_key m \<notin> mm) (take (nat (len s)) (models s)))"
  from assms False have "fst (remove_loop_own silent ps (s, ix)) = (s', ix')"
    by (auto simp: remove_stale_own_def Let_def ps_def split: if_splits)
  then have "s' = fst (fst (remove_loop_own silent ps (s, ix)))" by simp
  then show ?thesis by (simp add: sends_remove_loop)
qed

text \<open>The "add" notifications: one for each staged record, in order.\<close>

lemma emitted_trigger_adds_from:
  "emitted (trigger_adds (map_option (\<lambda>a. a + int n) at) ix ms s) =
     emitted s @ map (\<lambda>(i, m). N_add m (case at of Some a \<Rightarrow> Some (a + int i) | None \<Rightarrow> ix))
                   (enumerate n ms)"
proof (induction ms arbitrary: n s)
  case Nil
  then show ?case by simp
next
  case (Cons m ms)
  define ev where "ev = N_add m (case at of Some a \<Rightarrow> Some (a + int n) | None \<Rightarrow> ix)"
  define s1 where "s1 = trigger m ev s"
  have l1: "emitted s1 = emitted s @ [ev]" by (simp add: s1_def emitted_trigger)
  have sh: "map_option (\<lambda>a. a + 1) (map_option (\<lambda>a. a + int n) at)
              = map_option (\<lambda>a. a + int (Suc n)) at"
    by (cases at) simp_all
  have e: "N_add m (case map_option (\<lambda>a. a + int n) at of Some a \<Rightarrow> Some a | None \<Rightarrow> ix) = ev"
    by (cases at) (simp_all add: ev_def)
  have "trigger_adds (map_option (\<lambda>a. a + int n) at) ix (m # ms) s
          = trigger_adds (map_option (\<lambda>a. a + int (Suc n)) at) ix ms s1"
    by (simp only: trigger_adds.simps sh e s1_def)
  with Cons.IH[of "Suc n" s1] l1 show ?case by (simp add: ev_def)
qed

lemma emitted_trigger_adds:
  "emitted (trigger_adds at ix ms s) = emitted s @ add_notes at ix ms"
proof -
  have "map_option (\<lambda>a. a + int 0) at = at" by (cases at) simp_all
  with emitted_trigger_adds_from[of 0 at ix ms s] show ?thesis by (simp add: add_notes_def)
qed

lemma emitted_sort_c: "sort_c s opts = Inr s' \<Longrightarrow> emitted s' = emitted s"
  by (auto simp: sort_c_def Let_def split: if_splits)

lemma emitted_set_splice [simp]: "emitted (set_splice at v s) = emitted s"
  by (simp add: set_splice_def)

text \<open>The last phase of a call that is not silent: the "add" notifications on the staged
  records, and on the collection the notifications it gets from them, then "sort" if
  the collection was sorted or the order changed.\<close>

lemma set_finish_notes:
  assumes fin: "set_finish opts srtb at v (s, ix) = Inr s'"
    and ns: "\<not> truthy (opt_silent opts)"
  shows "emitted s' = emitted s @ add_notes at ix (v_toAdd v)"
    and "\<exists>as. log s' = log s @ as @
            (if v_sort v \<or> v_orderChanged v \<or> (v_toAdd v \<noteq> [] \<and> srtb) then [N_sort] else []) \<and>
          list_all is_add as"
proof -
  define grow where "grow = (v_toAdd v \<noteq> [] \<or> v_orderChanged v)"
  define srt where "srt = (v_sort v \<or> (grow \<and> srtb))"
  define s1 where "s1 = (if grow then set_splice at v s else s)"
  have "\<exists>s2. (if srt then sort_c s1 (no_options\<lparr>opt_silent := Some True\<rparr>) else Inr s1) = Inr s2 \<and>
      s' = set_events opts at ix v srt s2"
    unfolding srt_def grow_def s1_def using fin
    by (auto simp: set_finish_def Let_def split: sum.splits)
  then obtain s2 where
    so: "(if srt then sort_c s1 (no_options\<lparr>opt_silent := Some True\<rparr>) else Inr s1) = Inr s2"
    and s': "s' = set_events opts at ix v srt s2"
    by blast
  have l1: "log s1 = log s" "emitted s1 = emitted s" by (simp_all add: s1_def)
  from so have l2: "log s2 = log s1" "emitted s2 = emitted s1"
    using log_sort_c_silent[of s1 s2] emitted_sort_c[of s1 _ s2] by (auto split: if_splits)
  have c: "(srt \<or> v_orderChanged v) = (v_sort v \<or> v_orderChanged v \<or> (v_toAdd v \<noteq> [] \<and> srtb))"
    by (auto simp: srt_def grow_def)
  show "emitted s' = emitted s @ add_notes at ix (v_toAdd v)"
    unfolding s' set_events_def using ns
    by (simp add: Let_def emitted_trigger_adds l1 l2)
  obtain as where as: "log (trigger_adds at ix (v_toAdd v) s2) = log s2 @ as" "list_all is_add as"
    using emits_trigger_adds[of s2 at ix "v_toAdd v"] by (auto simp: emits_def)
  show "\<exists>as. log s' = log s @ as @
            (if v_sort v \<or> v_orderChanged v \<or> (v_toAdd v \<noteq> [] \<and> srtb) then [N_sort] else []) \<and>
          list_all is_add as"
    unfolding s' set_events_def using ns as
    by (intro exI[of _ as]) (simp add: Let_def l1 l2 c)
qed

section \<open>The claims\<close>

subsection \<open>C6: add as a preset of set\<close>

text \<open>
  C6, as stated, fails: \<^verbatim>\<open>add\<close> does not fix \<^verbatim>\<open>merge\<close> to false. On the collection holding
  \<^verbatim>\<open>{id: 1, rank: 3}\<close>, \<^verbatim>\<open>add({id: 1, rank: 5}, {merge: true})\<close> merges the rank into the
  member, while \<^verbatim>\<open>set\<close> with add true, remove false and merge false leaves it alone.
\<close>

theorem add_merge_not_fixed_counterexample:
  "add_c single_state (Single (Some (Bag [(''id'', JNum 1), (''rank'', JNum 5)])))
         (no_options\<lparr>opt_merge := Some True\<rparr>)
   \<noteq> set_c single_state (Single (Some (Bag [(''id'', JNum 1), (''rank'', JNum 5)])))
         (no_options\<lparr>opt_merge := Some True, opt_add := Some True, opt_remove := Some False,
                      opt_merge := Some False\<rparr>)"
proof
  assume eq: "add_c single_state (Single (Some (Bag [(''id'', JNum 1), (''rank'', JNum 5)])))
         (no_options\<lparr>opt_merge := Some True\<rparr>)
   = set_c single_state (Single (Some (Bag [(''id'', JNum 1), (''rank'', JNum 5)])))
         (no_options\<lparr>opt_merge := Some True, opt_add := Some True, opt_remove := Some False,
                      opt_merge := Some False\<rparr>)"
  have a: "rank_of (add_c single_state (Single (Some (Bag [(''id'', JNum 1), (''rank'', JNum 5)])))
         (no_options\<lparr>opt_merge := Some True\<rparr>)) = JNum 5"
    by (simp add: rank_of_def examples evals)
  have b: "rank_of (set_c single_state (Single (Some (Bag [(''id'', JNum 1), (''rank'', JNum 5)])))
         (no_options\<lparr>opt_merge := Some True, opt_add := Some True, opt_remove := Some False,
                      opt_merge := Some False\<rparr>)) = JNum 3"
    by (simp add: rank_of_def examples evals)
  from eq a b show False by simp
qed

text \<open>
  C6, amended: \<^verbatim>\<open>add(records, options)\<close> is \<^verbatim>\<open>set(records, opts)\<close> where \<open>opts\<close> is the
  caller's options with add fixed to true and remove fixed to false, and with merge false
  only when the caller's options do not give merge: a merge the caller gives is kept.
\<close>

theorem add_is_set_with_add_options:
  "add_c s inp opts =
     set_c s inp (opts\<lparr>opt_merge := (case opt_merge opts of None \<Rightarrow> Some False | Some b \<Rightarrow> Some b),
                       opt_add := Some True, opt_remove := Some False\<rparr>)"
  by (simp add: add_c_def addOptions_def default_opt_def)

subsection \<open>C7: the cached length\<close>

text \<open>
  C7 fails on the code: \<^verbatim>\<open>set([m, m])\<close> with default options, where \<open>m\<close> is a record the
  caller made and has not saved, on an empty collection without comparator. The record is
  staged once, and pushed twice on the new order, since an unsaved record is never taken
  for a duplicate: the sequence is \<open>[m, m]\<close> and the cached length is 1.
\<close>

theorem set_same_unsaved_record_twice:
  "(case set_c unsaved_state (Plural [Rec 0, Rec 0]) no_options of
      Inl e \<Rightarrow> False
    | Inr (s', out) \<Rightarrow>
        out = PluralOut [Resolved 0, Resolved 0] \<and> models s' = [0, 0] \<and> len s' = 1 \<and>
        len s' \<noteq> int (length (models s')))"
  by (simp add: examples evals)

subsection \<open>C9: sort and the comparator\<close>

text \<open>
  C9: \<^verbatim>\<open>sort\<close> throws exactly when no comparator is configured, and the error is the
  result of the call; with a comparator it completes, the sequence is a permutation of
  what it was, the length and the index are untouched, and one "sort" notification is
  emitted unless the call is silent.
\<close>

theorem sort_c_outcome:
  "(case sort_c s opts of
      Inl e \<Rightarrow> e = NoComparator \<and> \<not> has_comparator s
    | Inr s' \<Rightarrow>
        has_comparator s \<and>
        log s' = log s @ (if truthy (opt_silent opts) then [] else [N_sort]) \<and>
        mset (models s') = mset (models s) \<and> len s' = len s \<and> byId s' = byId s)"
  by (auto simp: sort_c_def Let_def has_comparator_def split: option.splits comparator.splits)

theorem sort_c_outcome_witness:
  "\<not> has_comparator (new_collection None) \<and> has_comparator ranked_state \<and>
   sort_c (new_collection None) no_options = Inl NoComparator \<and>
   (\<exists>s'. sort_c ranked_state no_options = Inr s' \<and> log s' = [N_sort] \<and> models s' = [1, 0]) \<and>
   (\<exists>s'. sort_c ranked_state (no_options\<lparr>opt_silent := Some True\<rparr>) = Inr s' \<and> log s' = [])"
  using sort_c_outcome [of "new_collection None" no_options]
    sort_c_outcome [of ranked_state no_options]
    sort_c_outcome [of ranked_state "no_options\<lparr>opt_silent := Some True\<rparr>"]
  by (simp add: examples evals)

subsection \<open>C4: the order of the notifications of one call\<close>

text \<open>
  C4: the notifications that one call of \<^verbatim>\<open>set\<close> emits come in four runs: first what the
  classification loop emits (the "change" notifications of the merges, and "invalid" for
  a rejected entry), then the "remove" notifications, then the "add" notifications, then
  at most one "sort" notification.
\<close>

theorem set_notification_order:
  assumes "set_c s inp opts = Inr (s', out)"
  shows "\<exists>cs rs as ss. log s' = log s @ cs @ rs @ as @ ss \<and>
           list_all early cs \<and> list_all is_remove rs \<and> list_all is_add as \<and>
           (ss = [] \<or> ss = [N_sort])"
  using set_own_notification_order[OF set_c_Inr[OF assms]] .

theorem set_notification_order_witness:
  "\<exists>s' out.
     set_c ranked_state (Plural [Bag [(''id'', JNum 2), (''rank'', JNum 5)],
                                 Bag [(''id'', JNum 3), (''rank'', JNum 2)]]) no_options
       = Inr (s', out) \<and>
     log s' = [N_change 1, N_remove 0 (Some 1), N_add 2 (Some 1), N_sort] \<and>
     (\<exists>cs rs as ss. log s' = log ranked_state @ cs @ rs @ as @ ss \<and>
           list_all early cs \<and> list_all is_remove rs \<and> list_all is_add as \<and>
           (ss = [] \<or> ss = [N_sort]))"
proof -
  have "\<exists>s' out.
     set_c ranked_state (Plural [Bag [(''id'', JNum 2), (''rank'', JNum 5)],
                                 Bag [(''id'', JNum 3), (''rank'', JNum 2)]]) no_options
       = Inr (s', out) \<and>
     log s' = [N_change 1, N_remove 0 (Some 1), N_add 2 (Some 1), N_sort]"
    by (simp add: examples evals)
  then obtain s' out where
    e: "set_c ranked_state (Plural [Bag [(''id'', JNum 2), (''rank'', JNum 5)],
                                 Bag [(''id'', JNum 3), (''rank'', JNum 2)]]) no_options
       = Inr (s', out)"
    and l: "log s' = [N_change 1, N_remove 0 (Some 1), N_add 2 (Some 1), N_sort]" by blast
  from set_notification_order[OF e] e l show ?thesis by blast
qed

subsection \<open>Adding one bag that resolves to no record\<close>




subsection \<open>C3: unsaved records are never duplicates of each other\<close>



subsection \<open>C2: setting a collection to its own array\<close>







subsection \<open>C8: an entry that fails validation\<close>

text \<open>
  C8: let a batch hold an attribute bag for which, at its turn in the first loop, \<^verbatim>\<open>get\<close>
  finds nothing, and that the record class rejects with the truthy error \<open>err\<close>; adding
  is allowed, and the collection and the batch refer to allocated records only. Then that
  turn throws nothing and the loop goes on with the remaining entries from the state it
  had before the entry, changed only in that the rejected record was allocated, "invalid"
  with \<open>err\<close> is on the collection's log, and the entry's place in the result holds
  \<^verbatim>\<open>false\<close>: nothing is staged, marked or registered for it. Whenever the remaining
  entries and the removal pass go through from there, the call returns; its result has
  \<^verbatim>\<open>false\<close> at the place of the entry, the "invalid" notification is among those emitted,
  and the rejected record is neither in the sequence nor in the index.
\<close>

theorem set_skips_rejected_entry:
  assumes add: "opt_add opts \<noteq> Some False"
    and pre: "first_loop s opts 0 es1 (s, init_vars s (setOptions opts)) = Inr (s1, v1)"
    and unres: "get s1 (PEntry (Bag a)) = None"
    and inv: "validate s a = Some err" and tr: "js_truthy err"
    and al: "all_allocated s (es1 @ es2)"
  shows "first_loop s opts 0 (es1 @ Bag a # es2) (s, init_vars s (setOptions opts)) =
           first_loop s opts (Suc (length es1)) es2
             ((construct s1 a)\<lparr>log := log s1 @ [N_invalid err]\<rparr>,
              v1\<lparr>v_models := v_models v1 @ [Rejected], v_model := None\<rparr>) \<and>
         (\<forall>sv sx.
            first_loop s opts (Suc (length es1)) es2
              ((construct s1 a)\<lparr>log := log s1 @ [N_invalid err]\<rparr>,
               v1\<lparr>v_models := v_models v1 @ [Rejected], v_model := None\<rparr>) = Inr sv \<and>
            removal_pass (setOptions opts) sv = Inr sx \<longrightarrow>
            (\<exists>s' slots.
               set_c s (Plural (es1 @ Bag a # es2)) opts = Inr (s', PluralOut slots) \<and>
               length slots = Suc (length es1 + length es2) \<and>
               slots ! length es1 = Rejected \<and>
               N_invalid err \<in> set (log s') \<and>
               next_cid s1 \<notin> set (models s') \<and> next_cid s1 \<notin> ran (byId s')))"
proof -
  define o2 where "o2 = setOptions opts"
  define srt where "srt = sortable s o2"
  define n where "n = next_cid s1"
  define sR where "sR = (construct s1 a)\<lparr>log := log s1 @ [N_invalid err]\<rparr>"
  define vR where "vR = v1\<lparr>v_models := v_models v1 @ [Rejected], v_model := None\<rparr>"
  from add have ta: "truthy (opt_add o2)"
    by (cases "opt_add opts") (auto simp: o2_def setOptions_def default_opt_def truthy_def)
  from pre have cl1: "classify o2 srt (sortAttr s) 0 es1 (s, init_vars s o2) = Inr (s1, v1)"
    by (simp add: first_loop_def o2_def srt_def)
  note co1 = classify_Inr[OF cl1]
  from classify_frame[of o2 srt "sortAttr s" 0 es1 s "init_vars s o2"] co1
  have f1: "validate s1 = validate s" "next_cid s \<le> next_cid s1" "comparator s1 = comparator s"
    by simp_all
  have rj: "rejection s1 a = Some err" using inv tr f1 by (simp add: rejection_def)
  have sto: "classify_step_own o2 srt (sortAttr s) (length es1) (Bag a) (s1, v1) = (sR, vR)"
    using classify_step_rejected_bag[OF get_NoneD[OF unres] ta rj, of srt "sortAttr s" "length es1" v1]
    by (simp add: sR_def vR_def)
  have "get s1 (PEntry (Bag a)) = map_option Hit (get_own s1 (PEntry (Bag a)))"
    using unres get_NoneD[OF unres] by simp
  from classify_step_clean[OF this, of o2 srt "sortAttr s" "length es1" v1] sto
  have st: "classify_step o2 srt (sortAttr s) (length es1) (Bag a) (s1, v1) = Inr (sR, vR)"
    by simp
  have cl: "classify o2 srt (sortAttr s) 0 (es1 @ Bag a # es2) (s, init_vars s o2) =
            classify o2 srt (sortAttr s) (Suc (length es1)) es2 (sR, vR)"
    by (simp add: classify_append_c cl1 st)
  have goes_on: "first_loop s opts 0 (es1 @ Bag a # es2) (s, init_vars s (setOptions opts)) =
           first_loop s opts (Suc (length es1)) es2 (sR, vR)"
    using cl by (simp add: first_loop_def o2_def srt_def)
  have returns: "\<exists>s' slots.
               set_c s (Plural (es1 @ Bag a # es2)) opts = Inr (s', PluralOut slots) \<and>
               length slots = Suc (length es1 + length es2) \<and>
               slots ! length es1 = Rejected \<and>
               N_invalid err \<in> set (log s') \<and>
               n \<notin> set (models s') \<and> n \<notin> ran (byId s')"
    if rest: "first_loop s opts (Suc (length es1)) es2 (sR, vR) = Inr sv"
      and rm: "removal_pass (setOptions opts) sv = Inr sx" for sv sx
  proof -
    obtain s2 v2 where sv: "sv = (s2, v2)" by (cases sv)
    obtain s3 ix3 where sx: "sx = (s3, ix3)" by (cases sx)
    from rest have cl2: "classify o2 srt (sortAttr s) (Suc (length es1)) es2 (sR, vR) = Inr (s2, v2)"
      by (simp add: first_loop_def o2_def srt_def sv)
    note co2 = classify_Inr[OF cl2]
    from rm have rmo: "(if truthy (opt_remove o2)
            then remove_stale_own (truthy (opt_silent o2)) (v_modelMap v2) (s2, opt_index o2)
            else Inr (s2, opt_index o2)) = Inr (s3, ix3)"
      by (auto simp: removal_pass_def o2_def sv sx split: if_splits dest: remove_stale_Inr)
    \<comment> \<open>the slots\<close>
    from classify_slots[of o2 srt "sortAttr s" 0 es1 s "init_vars s o2"] co1
    obtain ws1 where w1: "v_models v1 = ws1" "length ws1 = length es1"
      by (auto simp: init_vars_def)
    from classify_slots[of o2 srt "sortAttr s" "Suc (length es1)" es2 sR vR] co2
    obtain ws2 where w2: "v_models v2 = v_models vR @ ws2" "length ws2 = length es2" by auto
    have slots: "v_models v2 = ws1 @ Rejected # ws2" by (simp add: w2 vR_def w1)
    \<comment> \<open>the rejected record is referred to nowhere\<close>
    from al have a0: "\<forall>r \<in> refs (s, init_vars s o2). r < next_cid s"
      and a1: "\<forall>r \<in> (\<Union>e \<in> set es1. entry_recs e). r < next_cid s"
      and a2: "\<forall>r \<in> (\<Union>e \<in> set es2. entry_recs e). r < next_cid s"
      by (auto simp: all_allocated_def refs_def init_vars_def)
    have n1: "n \<notin> refs (s1, v1)"
      using classify_refs[OF co1] a0 a1 f1(2) by (fastforce simp: n_def)
    have "refs (sR, vR) \<subseteq> refs (s1, v1)" by (auto simp: refs_def sR_def vR_def)
    with n1 have nR: "n \<notin> refs (sR, vR)" by auto
    have ncR: "next_cid sR = Suc n" by (simp add: sR_def n_def)
    have n2: "n \<notin> refs (s2, v2)"
      using classify_refs[OF co2] nR a2 f1(2) by (fastforce simp: ncR n_def)
    \<comment> \<open>the notification stays on the log\<close>
    have "N_invalid err \<in> set (log sR)" by (simp add: sR_def)
    with emits_log_subset[OF emits_classify[of sR o2 srt "sortAttr s" "Suc (length es1)" es2 vR]] co2
    have lg2: "N_invalid err \<in> set (log s2)" by auto
    have r3: "set (models s3) \<subseteq> set (models s2)" "ran (byId s3) \<subseteq> ran (byId s2)"
      "set (log s2) \<subseteq> set (log s3)" "comparator s3 = comparator s2"
      using rmo remove_stale_frame[of "truthy (opt_silent o2)" "v_modelMap v2" s2 "opt_index o2" s3 ix3]
        emits_log_subset[OF emits_remove_stale[of "truthy (opt_silent o2)" "v_modelMap v2" s2
            "opt_index o2" s3 ix3]]
      by (auto split: if_splits)
    \<comment> \<open>the last phase returns\<close>
    from classify_frame[of o2 srt "sortAttr s" "Suc (length es1)" es2 sR vR] co2
    have c2: "comparator s2 = comparator s" by (simp add: sR_def f1)
    from classify_sort[of o2 srt "sortAttr s" "Suc (length es1)" es2 sR vR] co2
      classify_sort[of o2 srt "sortAttr s" 0 es1 s "init_vars s o2"] co1
    have vs: "v_sort v2 \<longrightarrow> srt" by (auto simp: init_vars_def vR_def)
    have "v_sort v2 \<or> srt \<longrightarrow> has_comparator s3"
      using vs has_comparator_cong[of s3 s] r3(4) c2 by (auto simp: srt_def sortable_def)
    from set_finish_total[OF this] obtain s' where
      fin: "set_finish o2 srt (position s o2) v2 (s3, ix3) = Inr s'" by blast
    note ff = set_finish_fields[OF fin]
    from log_set_finish[OF fin] have lg': "set (log s3) \<subseteq> set (log s')" by auto
    have "set_mset (spliced (position s o2) v2 s3) \<subseteq> set (models s3) \<union> refs (s2, v2)"
      by (auto simp: spliced_def refs_def split: option.splits if_splits)
    with ff have "set (models s') \<subseteq> set (models s3) \<union> refs (s2, v2)"
      by (metis set_mset_mset)
    with r3 n2 have nm: "n \<notin> set (models s')" by (auto simp: refs_def)
    have nb: "n \<notin> ran (byId s')" using ff r3 n2 by (auto simp: refs_def)
    have whole: "first_loop s opts 0 (entries_of (Plural (es1 @ Bag a # es2)))
        (s, init_vars s (setOptions opts)) = Inr (s2, v2)"
      using goes_on rest by (simp add: entries_of_def sv)
    have res: "set_c s (Plural (es1 @ Bag a # es2)) opts = Inr (s', PluralOut (v_models v2))"
      using rm fin
      by (simp add: set_c_def whole set_rest_def sv sx o2_def srt_def set_result_def)
    have "set_c s (Plural (es1 @ Bag a # es2)) opts = Inr (s', PluralOut (ws1 @ Rejected # ws2)) \<and>
          length (ws1 @ Rejected # ws2) = Suc (length es1 + length es2) \<and>
          (ws1 @ Rejected # ws2) ! length es1 = Rejected"
      using res slots w1 w2 by (simp add: nth_append)
    with lg2 r3 lg' nm nb show ?thesis by blast
  qed
  from goes_on returns show ?thesis
    unfolding sR_def vR_def n_def by blast
qed

theorem set_skips_rejected_entry_witness:
  "opt_add no_options \<noteq> Some False \<and>
   get (fst (projr (first_loop validating_state no_options 0 batch_before
         (validating_state, init_vars validating_state (setOptions no_options)))))
     (PEntry (Bag rejected_bag)) = None \<and>
   validate validating_state rejected_bag = Some (JStr ''rank must not be negative'') \<and>
   js_truthy (JStr ''rank must not be negative'') \<and>
   all_allocated validating_state (batch_before @ batch_after) \<and>
   (\<exists>s' slots.
      set_c validating_state (Plural (batch_before @ Bag rejected_bag # batch_after)) no_options =
        Inr (s', PluralOut slots) \<and>
      length slots = 3 \<and> slots ! 1 = Rejected \<and>
      N_invalid (JStr ''rank must not be negative'') \<in> set (log s') \<and>
      2 \<notin> set (models s') \<and> 2 \<notin> ran (byId s'))"
proof -
  define sv1 where "sv1 = projr (first_loop validating_state no_options 0 batch_before
         (validating_state, init_vars validating_state (setOptions no_options)))"
  define s1 where "s1 = fst sv1"
  define v1 where "v1 = snd sv1"
  define sR where "sR = (construct s1 rejected_bag)
      \<lparr>log := log s1 @ [N_invalid (JStr ''rank must not be negative'')]\<rparr>"
  define vR where "vR = v1\<lparr>v_models := v_models v1 @ [Rejected], v_model := None\<rparr>"
  have "\<exists>x. first_loop validating_state no_options 0 batch_before
         (validating_state, init_vars validating_state (setOptions no_options)) = Inr x"
    by (simp add: batch_before_def evals examples)
  then have pre: "first_loop validating_state no_options 0 batch_before
         (validating_state, init_vars validating_state (setOptions no_options)) = Inr (s1, v1)"
    by (auto simp: s1_def v1_def sv1_def)
  have add: "opt_add no_options \<noteq> Some False" by (simp add: no_options_def)
  have "ran (byId validating_state) = {0}"
    by (auto simp: examples ran_def)
  then have al: "all_allocated validating_state (batch_before @ batch_after)"
    by (simp add: all_allocated_def batch_before_def batch_after_def) (simp add: examples)
  have nc: "next_cid s1 = 2"
    by (simp add: s1_def sv1_def batch_before_def evals examples)
  have unres: "get s1 (PEntry (Bag rejected_bag)) = None"
    by (simp add: s1_def sv1_def batch_before_def rejected_bag_def evals examples)
  have inv: "validate validating_state rejected_bag = Some (JStr ''rank must not be negative'')"
    by (simp add: rejected_bag_def examples attr_get_def)
  have tr: "js_truthy (JStr ''rank must not be negative'')" by simp
  have rest: "\<exists>sv. first_loop validating_state no_options (Suc (length batch_before)) batch_after
      (sR, vR) = Inr sv \<and> (\<exists>sx. removal_pass (setOptions no_options) sv = Inr sx)"
    by (simp add: sR_def vR_def s1_def v1_def sv1_def batch_before_def batch_after_def
        rejected_bag_def evals examples)
  then obtain sv sx where
    r: "first_loop validating_state no_options (Suc (length batch_before)) batch_after (sR, vR) = Inr sv"
       "removal_pass (setOptions no_options) sv = Inr sx"
    by blast
  from set_skips_rejected_entry[OF add pre unres inv tr al] r
  have "\<exists>s' slots.
      set_c validating_state (Plural (batch_before @ Bag rejected_bag # batch_after)) no_options =
        Inr (s', PluralOut slots) \<and>
      length slots = Suc (length batch_before + length batch_after) \<and>
      slots ! length batch_before = Rejected \<and>
      N_invalid (JStr ''rank must not be negative'') \<in> set (log s') \<and>
      next_cid s1 \<notin> set (models s') \<and> next_cid s1 \<notin> ran (byId s')"
    unfolding sR_def vR_def by blast
  then have "\<exists>s' slots.
      set_c validating_state (Plural (batch_before @ Bag rejected_bag # batch_after)) no_options =
        Inr (s', PluralOut slots) \<and>
      length slots = 3 \<and> slots ! 1 = Rejected \<and>
      N_invalid (JStr ''rank must not be negative'') \<in> set (log s') \<and>
      2 \<notin> set (models s') \<and> 2 \<notin> ran (byId s')"
    by (simp add: nc batch_before_def batch_after_def numeral_3_eq_3)
  with add unres inv tr al show ?thesis unfolding s1_def sv1_def by (intro conjI)
qed

subsection \<open>C5: the "add" and "sort" notifications of set\<close>

text \<open>
  C5 as stated does not hold: an "add" notification carries the insertion index only
  when the call gives a position, because \<^verbatim>\<open>addOpts.index = at + i\<close> is under
  \<^verbatim>\<open>if (at != null)\<close>. On the collection holding \<^verbatim>\<open>{id: 1, rank: 3}\<close>,
  \<^verbatim>\<open>set([{id: 5}, {id: 6}])\<close> adds two records: the second one ends at index 1 of the
  sequence and its notification does not carry the index 1. On the collection sorted by
  \<^verbatim>\<open>rank\<close>, \<^verbatim>\<open>set([{id: 3, rank: 2}], {remove: false})\<close> inserts the new record at index 1
  and its notification carries no index.
\<close>

theorem set_add_index_counterexample:
  "(\<exists>s'. set_c single_state (Plural [Bag [(''id'', JNum 5)], Bag [(''id'', JNum 6)]]) no_options
            = Inr (s', PluralOut [Resolved 1, Resolved 2]) \<and>
          models s' = [1, 2] \<and>
          emitted s' = [N_remove 0 (Some 0), N_add 1 (Some 0), N_add 2 (Some 0)] \<and>
          log s' = [N_remove 0 (Some 0), N_add 1 (Some 0), N_add 2 (Some 0), N_sort]) \<and>
   (\<exists>s'. set_c ranked_state (Plural [Bag [(''id'', JNum 3), (''rank'', JNum 2)]])
            (no_options\<lparr>opt_remove := Some False\<rparr>)
            = Inr (s', PluralOut [Resolved 2]) \<and>
          models s' = [1, 2, 0] \<and>
          emitted s' = [N_add 2 None] \<and>
          log s' = [N_add 2 None, N_sort])"
  by (simp add: examples evals)

text \<open>
  C5, amended: every call of \<^verbatim>\<open>set\<close> that is not silent and returns emits, after the
  "change" and "remove" notifications, exactly one "add" notification on each record
  that its first loop staged, in staging order; when the call gives a position \<open>at\<close>,
  the \<open>i\<close>-th of them carries the index \<open>at + i\<close>. The collection emits one "sort"
  notification, after all its other notifications, if the collection was sorted or the
  order changed (a merge changed the sort attribute, or the order of the records changed,
  or a record was staged and the collection sorts), and none otherwise.
\<close>

theorem set_add_notifications:
  assumes ret: "set_c s inp opts = Inr (s', out)"
    and ns: "opt_silent opts \<noteq> Some True"
  shows "\<exists>s2 v pre ix cs.
           first_loop s opts 0 (entries_of inp) (s, init_vars s (setOptions opts)) = Inr (s2, v) \<and>
           emitted s' = emitted s @ pre @
                        add_notes (position s (setOptions opts)) ix (v_toAdd v) \<and>
           list_all (\<lambda>n. is_change n \<or> is_remove n) pre \<and>
           log s' = log s @ cs @
                    (if v_sort v \<or> v_orderChanged v \<or>
                        (v_toAdd v \<noteq> [] \<and> sortable s (setOptions opts))
                     then [N_sort] else []) \<and>
           list_all not_sort cs"
proof -
  define o2 where "o2 = setOptions opts"
  define srt where "srt = sortable s o2"
  from ns have nsil: "\<not> truthy (opt_silent o2)"
    by (simp add: o2_def setOptions_def truthy_def)
  from ret obtain s2 v where
    fl: "first_loop s opts 0 (entries_of inp) (s, init_vars s o2) = Inr (s2, v)"
    and rest: "set_rest s inp o2 (s2, v) = Inr (s', out)"
    by (auto simp: set_c_def o2_def split: sum.splits)
  from fl have cl: "classify o2 srt (sortAttr s) 0 (entries_of inp) (s, init_vars s o2) = Inr (s2, v)"
    by (simp add: first_loop_def o2_def srt_def)
  note co = classify_Inr[OF cl]
  from rest obtain s3 ix3 where
    rm: "removal_pass o2 (s2, v) = Inr (s3, ix3)"
    and fin: "set_finish o2 srt (position s o2) v (s3, ix3) = Inr s'"
    by (auto simp: set_rest_def srt_def split: sum.splits)
  from rm have rmo: "(if truthy (opt_remove o2)
          then remove_stale_own (truthy (opt_silent o2)) (v_modelMap v) (s2, opt_index o2)
          else Inr (s2, opt_index o2)) = Inr (s3, ix3)"
    by (auto simp: removal_pass_def split: if_splits dest: remove_stale_Inr)
  \<comment> \<open>the first loop\<close>
  from sends_classify[of s o2 srt "sortAttr s" 0 "entries_of inp" "init_vars s o2"] co
  obtain c1 where c1: "emitted s2 = emitted s @ c1" "list_all is_change c1"
    by (auto simp: sends_def)
  from emits_classify[of s o2 srt "sortAttr s" 0 "entries_of inp" "init_vars s o2"] co
  obtain l1 where l1: "log s2 = log s @ l1" "list_all early l1"
    by (auto simp: emits_def)
  \<comment> \<open>the removal pass\<close>
  have "sends is_remove s2 s3 \<and> emits is_remove s2 s3"
    using rmo sends_remove_stale[of "truthy (opt_silent o2)" "v_modelMap v" s2 "opt_index o2" s3 ix3]
      emits_remove_stale[of "truthy (opt_silent o2)" "v_modelMap v" s2 "opt_index o2" s3 ix3]
    by (auto split: if_splits)
  then obtain r1 l2 where r1: "emitted s3 = emitted s2 @ r1" "list_all is_remove r1"
    and l2: "log s3 = log s2 @ l2" "list_all is_remove l2"
    by (auto simp: sends_def emits_def)
  \<comment> \<open>the last phase\<close>
  from set_finish_notes[OF fin nsil] obtain as where
    e3: "emitted s' = emitted s3 @ add_notes (position s o2) ix3 (v_toAdd v)"
    and l3: "log s' = log s3 @ as @
            (if v_sort v \<or> v_orderChanged v \<or> (v_toAdd v \<noteq> [] \<and> srt) then [N_sort] else [])"
      "list_all is_add as"
    by blast
  have ns1: "list_all not_sort l1" using l1(2)
    by (auto simp: list_all_iff early_def elim!: is_change.elims is_invalid.elims)
  have ns2: "list_all not_sort l2" using l2(2)
    by (auto simp: list_all_iff elim!: is_remove.elims)
  have ns3: "list_all not_sort as" using l3(2)
    by (auto simp: list_all_iff elim!: is_add.elims)
  have pre: "list_all (\<lambda>n. is_change n \<or> is_remove n) (c1 @ r1)"
    using c1(2) r1(2) by (auto simp: list_all_iff)
  have em: "emitted s' = emitted s @ (c1 @ r1) @ add_notes (position s o2) ix3 (v_toAdd v)"
    by (simp add: e3 r1 c1)
  have lg: "log s' = log s @ (l1 @ l2 @ as) @
            (if v_sort v \<or> v_orderChanged v \<or> (v_toAdd v \<noteq> [] \<and> srt) then [N_sort] else [])"
    by (simp add: l3 l2 l1)
  have nsc: "list_all not_sort (l1 @ l2 @ as)" using ns1 ns2 ns3 by simp
  show ?thesis
    unfolding o2_def[symmetric] srt_def[symmetric]
    using fl em pre lg nsc
    by (intro exI[of _ s2] exI[of _ v] exI[of _ "c1 @ r1"] exI[of _ ix3] exI[of _ "l1 @ l2 @ as"] conjI)
qed

theorem set_add_notifications_witness:
  "opt_silent (no_options\<lparr>opt_at := Some 0\<rparr>) \<noteq> Some True \<and>
   (\<exists>s' out.
      set_c single_state (Plural [Bag [(''id'', JNum 5)], Bag [(''id'', JNum 6)]])
        (no_options\<lparr>opt_at := Some 0\<rparr>) = Inr (s', out) \<and>
      models s' = [1, 2] \<and>
      emitted s' = [N_remove 0 (Some 0), N_add 1 (Some 0), N_add 2 (Some 1)] \<and>
      log s' = [N_remove 0 (Some 0), N_add 1 (Some 0), N_add 2 (Some 1), N_sort] \<and>
      (\<exists>s2 v pre ix cs.
         first_loop single_state (no_options\<lparr>opt_at := Some 0\<rparr>) 0
           (entries_of (Plural [Bag [(''id'', JNum 5)], Bag [(''id'', JNum 6)]]))
           (single_state, init_vars single_state (setOptions (no_options\<lparr>opt_at := Some 0\<rparr>)))
           = Inr (s2, v) \<and>
         emitted s' = emitted single_state @ pre @
           add_notes (position single_state (setOptions (no_options\<lparr>opt_at := Some 0\<rparr>))) ix
             (v_toAdd v) \<and>
         list_all (\<lambda>n. is_change n \<or> is_remove n) pre \<and>
         log s' = log single_state @ cs @
           (if v_sort v \<or> v_orderChanged v \<or>
               (v_toAdd v \<noteq> [] \<and>
                sortable single_state (setOptions (no_options\<lparr>opt_at := Some 0\<rparr>)))
            then [N_sort] else []) \<and>
         list_all not_sort cs))"
proof -
  have ns: "opt_silent (no_options\<lparr>opt_at := Some 0\<rparr>) \<noteq> Some True"
    by (simp add: no_options_def)
  have "\<exists>s' out.
      set_c single_state (Plural [Bag [(''id'', JNum 5)], Bag [(''id'', JNum 6)]])
        (no_options\<lparr>opt_at := Some 0\<rparr>) = Inr (s', out) \<and>
      models s' = [1, 2] \<and>
      emitted s' = [N_remove 0 (Some 0), N_add 1 (Some 0), N_add 2 (Some 1)] \<and>
      log s' = [N_remove 0 (Some 0), N_add 1 (Some 0), N_add 2 (Some 1), N_sort]"
    by (simp add: examples evals)
  then obtain s' out where
    e: "set_c single_state (Plural [Bag [(''id'', JNum 5)], Bag [(''id'', JNum 6)]])
        (no_options\<lparr>opt_at := Some 0\<rparr>) = Inr (s', out)"
    and r: "models s' = [1, 2]"
      "emitted s' = [N_remove 0 (Some 0), N_add 1 (Some 0), N_add 2 (Some 1)]"
      "log s' = [N_remove 0 (Some 0), N_add 1 (Some 0), N_add 2 (Some 1), N_sort]"
    by blast
  show ?thesis
  proof (intro conjI)
    show "opt_silent (no_options\<lparr>opt_at := Some 0\<rparr>) \<noteq> Some True" by (rule ns)
    show "\<exists>s' out.
      set_c single_state (Plural [Bag [(''id'', JNum 5)], Bag [(''id'', JNum 6)]])
        (no_options\<lparr>opt_at := Some 0\<rparr>) = Inr (s', out) \<and>
      models s' = [1, 2] \<and>
      emitted s' = [N_remove 0 (Some 0), N_add 1 (Some 0), N_add 2 (Some 1)] \<and>
      log s' = [N_remove 0 (Some 0), N_add 1 (Some 0), N_add 2 (Some 1), N_sort] \<and>
      (\<exists>s2 v pre ix cs.
         first_loop single_state (no_options\<lparr>opt_at := Some 0\<rparr>) 0
           (entries_of (Plural [Bag [(''id'', JNum 5)], Bag [(''id'', JNum 6)]]))
           (single_state, init_vars single_state (setOptions (no_options\<lparr>opt_at := Some 0\<rparr>)))
           = Inr (s2, v) \<and>
         emitted s' = emitted single_state @ pre @
           add_notes (position single_state (setOptions (no_options\<lparr>opt_at := Some 0\<rparr>))) ix
             (v_toAdd v) \<and>
         list_all (\<lambda>n. is_change n \<or> is_remove n) pre \<and>
         log s' = log single_state @ cs @
           (if v_sort v \<or> v_orderChanged v \<or>
               (v_toAdd v \<noteq> [] \<and>
                sortable single_state (setOptions (no_options\<lparr>opt_at := Some 0\<rparr>)))
            then [N_sort] else []) \<and>
         list_all not_sort cs)"
    proof (rule exI[of _ s'], rule exI[of _ out], intro conjI)
      show "set_c single_state (Plural [Bag [(''id'', JNum 5)], Bag [(''id'', JNum 6)]])
        (no_options\<lparr>opt_at := Some 0\<rparr>) = Inr (s', out)" by (rule e)
      show "models s' = [1, 2]" by (rule r(1))
      show "emitted s' = [N_remove 0 (Some 0), N_add 1 (Some 0), N_add 2 (Some 1)]" by (rule r(2))
      show "log s' = [N_remove 0 (Some 0), N_add 1 (Some 0), N_add 2 (Some 1), N_sort]"
        by (rule r(3))
      show "\<exists>s2 v pre ix cs.
         first_loop single_state (no_options\<lparr>opt_at := Some 0\<rparr>) 0
           (entries_of (Plural [Bag [(''id'', JNum 5)], Bag [(''id'', JNum 6)]]))
           (single_state, init_vars single_state (setOptions (no_options\<lparr>opt_at := Some 0\<rparr>)))
           = Inr (s2, v) \<and>
         emitted s' = emitted single_state @ pre @
           add_notes (position single_state (setOptions (no_options\<lparr>opt_at := Some 0\<rparr>))) ix
             (v_toAdd v) \<and>
         list_all (\<lambda>n. is_change n \<or> is_remove n) pre \<and>
         log s' = log single_state @ cs @
           (if v_sort v \<or> v_orderChanged v \<or>
               (v_toAdd v \<noteq> [] \<and>
                sortable single_state (setOptions (no_options\<lparr>opt_at := Some 0\<rparr>)))
            then [N_sort] else []) \<and>
         list_all not_sort cs"
        by (rule set_add_notifications[OF e ns])
    qed
  qed
qed

subsection \<open>C1: one identifier twice in a batch\<close>

text \<open>
  C1 fails on the code for an identifier that is spelled like a name every object
  inherits. The index is the object literal \<^verbatim>\<open>{}\<close>: on the empty collection, for the batch
  \<^verbatim>\<open>[{id: "toString"}, {id: "toString"}]\<close>, \<^verbatim>\<open>get\<close> answers the first entry with the inherited
  function, \<^verbatim>\<open>set\<close> takes it for an existing record and throws at \<^verbatim>\<open>existing.set\<close>; no
  entry is resolved and nothing is in the sequence. For the batch \<^verbatim>\<open>[{id: 1}, {id: 1}]\<close> of
  the claim the same call returns one record for both entries, once in the sequence.
\<close>

theorem set_inherited_identifier_throws:
  "get (new_collection None) (PEntry (Bag [(''id'', JStr ''toString'')]))
     = Some (Inherited ''toString'') \<and>
   set_c (new_collection None)
     (Plural [Bag [(''id'', JStr ''toString'')], Bag [(''id'', JStr ''toString'')]]) no_options
     = Inl TypeError \<and>
   (\<exists>s'. set_c (new_collection None)
            (Plural [Bag [(''id'', JNum 1)], Bag [(''id'', JNum 1)]]) no_options
            = Inr (s', PluralOut [Resolved 0, Resolved 0]) \<and> models s' = [0] \<and> len s' = 1)"
  by (simp add: examples evals)

subsection \<open>C10: remove skips what does not resolve\<close>

text \<open>
  C10 fails on the code for an entry that is spelled like a name every object inherits.
  On the collection holding \<^verbatim>\<open>{id: 1, rank: 3}\<close>, \<^verbatim>\<open>get("toString")\<close> answers with the
  inherited function, which is no member; \<^verbatim>\<open>remove\<close> does not skip the entry but throws
  when it reads \<^verbatim>\<open>model.attributes\<close> for \<^verbatim>\<open>modelId\<close>, and the entries after it are not
  removed.
\<close>

theorem remove_inherited_name_throws:
  "get single_state (PKey (JStr ''toString'')) = Some (Inherited ''toString'') \<and>
   remove_c single_state (One (PKey (JStr ''toString''))) no_options = Inl TypeError \<and>
   remove_c single_state (Many [PKey (JStr ''toString''), PKey (JNum 1)]) no_options
     = Inl TypeError \<and>
   (\<exists>s'. remove_c single_state (Many [PKey (JStr ''nothing''), PKey (JNum 1)]) no_options
            = Inr (s', Many [None, Some 0]) \<and> models s' = [])"
  by (simp add: examples evals)

end
